theory Spec2Isabelle
  imports Complex_Main
begin

section \<open>Coordinates of a semi-circular coronal loop\<close>

text \<open>
  The development embeds \<^verbatim>\<open>semi_circular_loop\<close> of
  \<^verbatim>\<open>examples/saving_and_loading_data/coordinates_in_asdf.py\<close>.

  Conventions of the embedding.
  \<^item> A floating-point number is a real number with exact arithmetic, or numpy's
    \<^verbatim>\<open>nan\<close>: the type \<open>float\<close> is \<open>real option\<close> and \<open>None\<close> is \<^verbatim>\<open>nan\<close>.
    Rounding is not modelled.
  \<^item> A length is held as its value in metres, as \<^verbatim>\<open>astropy.constants\<close> and the
    annotation \<^verbatim>\<open>length: u.m\<close> have it; \<^verbatim>\<open>.to(u.cm)\<close> is \<open>to_cm\<close>.
    The root \<^verbatim>\<open>r_2\<close> and the radii \<^verbatim>\<open>r\<close> are values in centimetres, as in the source.
  \<^item> The solar radius \<^verbatim>\<open>const.R_sun\<close>, the root finder \<^verbatim>\<open>scipy.optimize.bisect\<close> and
    the construction and transformation of the \<^verbatim>\<open>SkyCoord\<close> are supplied from outside the
    file; they are parameters of the embedded function.
\<close>

subsection \<open>Floating-point values and numpy's elementwise functions\<close>

type_synonym float = "real option"

definition np_arccos :: "real \<Rightarrow> float" where
  "np_arccos x = (if - 1 \<le> x \<and> x \<le> 1 then Some (arccos x) else None)"

definition np_sqrt :: "real \<Rightarrow> float" where
  "np_sqrt x = (if 0 \<le> x then Some (sqrt x) else None)"

text \<open>A comparison with \<^verbatim>\<open>nan\<close> is false.\<close>

definition np_gt :: "float \<Rightarrow> real \<Rightarrow> bool" where
  "np_gt x y = (case x of None \<Rightarrow> False | Some v \<Rightarrow> y < v)"

definition np_times :: "float \<Rightarrow> float \<Rightarrow> float" where
  "np_times x y = (case x of None \<Rightarrow> None | Some u \<Rightarrow> (case y of None \<Rightarrow> None | Some v \<Rightarrow> Some (u * v)))"

definition np_sin :: "float \<Rightarrow> float" where
  "np_sin x = map_option sin x"

definition np_cos :: "float \<Rightarrow> float" where
  "np_cos x = map_option cos x"

definition to_cm :: "real \<Rightarrow> real" where
  "to_cm x = 100 * x"

text \<open>
  \<^verbatim>\<open>np.linspace(start, stop, num)\<close> for \<open>num > 1\<close>: the grid
  \<^verbatim>\<open>arange(0, num) * step + start\<close> with \<^verbatim>\<open>step = (stop - start) / (num - 1)\<close>,
  whose last entry is then overwritten with \<^verbatim>\<open>stop\<close>.
\<close>

definition linspace :: "real \<Rightarrow> real \<Rightarrow> nat \<Rightarrow> real list" where
  "linspace start stop num =
     (let step = (stop - start) / real (num - 1);
          y = map (\<lambda>i. real i * step + start) [0..<num]
      in y[num - 1 := stop])"

text \<open>Indexing an array with an array of indices, \<^verbatim>\<open>r[i_r]\<close>.\<close>

definition index_with :: "'a list \<Rightarrow> nat list \<Rightarrow> 'a list" where
  "index_with xs idx = map (\<lambda>k. xs ! k) idx"

subsection \<open>Quantities, frames and the collaborators\<close>

datatype unit_tag = Cm | Dimensionless

type_synonym quantity = "unit_tag \<times> float list"

text \<open>
  \<^verbatim>\<open>u.Quantity(n * [0 * u.cm])\<close>: a list of \<open>n\<close> quantities becomes an array in their
  unit. For \<open>n = 0\<close> the Python list is empty, no element carries a unit and
  astropy builds a dimensionless array.
\<close>

definition quantity_of_zeros :: "nat \<Rightarrow> quantity" where
  "quantity_of_zeros n = (if n = 0 then (Dimensionless, []) else (Cm, replicate n (Some 0)))"

text \<open>The observer of the Heliocentric frame: longitude and latitude in degrees, radius in metres.\<close>

record observer =
  lon :: real
  lat :: real
  radius :: real

datatype error = SignError | NanError | ConvergenceError | UnitsError

type_synonym root_finder = "(real \<Rightarrow> float) \<Rightarrow> real \<Rightarrow> real \<Rightarrow> error + real"

type_synonym 'c sky_coord = "observer \<Rightarrow> quantity \<Rightarrow> quantity \<Rightarrow> quantity \<Rightarrow> error + 'c"

subsection \<open>The function\<close>

text \<open>
  \<^verbatim>\<open>r_2_func(x) = arccos(0.5 * x / r_1) - pi + length / 2 / x\<close>, lengths in centimetres.
  The quotient at \<open>x = 0\<close> is not a finite number.
\<close>

definition r_2_func :: "real \<Rightarrow> real \<Rightarrow> real \<Rightarrow> float" where
  "r_2_func r_1 len x =
     (case np_arccos (0.5 * x / to_cm r_1) of
        None \<Rightarrow> None
      | Some t \<Rightarrow> if x = 0 then None else Some (t - pi + to_cm len / 2 / x))"

definition bracket_lo :: "real \<Rightarrow> real" where
  "bracket_lo len = to_cm len / (2 * pi)"

definition bracket_hi :: "real \<Rightarrow> real" where
  "bracket_hi len = to_cm len / pi"

definition r_2 :: "root_finder \<Rightarrow> real \<Rightarrow> real \<Rightarrow> error + real" where
  "r_2 find_root r_1 len = find_root (r_2_func r_1 len) (bracket_lo len) (bracket_hi len)"

definition alpha :: "real \<Rightarrow> real \<Rightarrow> float" where
  "alpha r_1 r2 = np_arccos (0.5 * (r2 / to_cm r_1))"

definition phi :: "real \<Rightarrow> real \<Rightarrow> float list" where
  "phi r_1 r2 =
     (case alpha r_1 r2 of
        None \<Rightarrow> replicate 2000 None
      | Some al \<Rightarrow> map Some (linspace (- pi + al) (pi - al) 2000))"

text \<open>The quadratic formula of the source, for one sampled angle.\<close>

definition quad_a :: real where
  "quad_a = 1"

definition quad_b :: "real \<Rightarrow> real \<Rightarrow> real" where
  "quad_b r_1 p = - 2 * (to_cm r_1 * cos p)"

definition quad_c :: "real \<Rightarrow> real \<Rightarrow> real" where
  "quad_c r_1 r2 = (to_cm r_1)\<^sup>2 - r2\<^sup>2"

definition r_of_phi :: "real \<Rightarrow> real \<Rightarrow> float \<Rightarrow> float" where
  "r_of_phi r_1 r2 ph =
     (case ph of
        None \<Rightarrow> None
      | Some p \<Rightarrow>
          (let a = quad_a; b = quad_b r_1 p; c = quad_c r_1 r2
           in case np_sqrt (b\<^sup>2 - 4 * a * c) of
                None \<Rightarrow> None
              | Some s \<Rightarrow> Some ((- b + s) / 2 / a)))"

definition r_all :: "real \<Rightarrow> real \<Rightarrow> float list" where
  "r_all r_1 r2 = map (r_of_phi r_1 r2) (phi r_1 r2)"

text \<open>\<^verbatim>\<open>i_r = np.where(r > r_1)\<close>: the indices of the samples above the surface, ascending.\<close>

definition i_r :: "real \<Rightarrow> real \<Rightarrow> nat list" where
  "i_r r_1 r2 = filter (\<lambda>k. np_gt (r_all r_1 r2 ! k) (to_cm r_1)) [0..<length (r_all r_1 r2)]"

definition r_kept :: "real \<Rightarrow> real \<Rightarrow> float list" where
  "r_kept r_1 r2 = index_with (r_all r_1 r2) (i_r r_1 r2)"

definition phi_kept :: "real \<Rightarrow> real \<Rightarrow> float list" where
  "phi_kept r_1 r2 = index_with (phi r_1 r2) (i_r r_1 r2)"

definition loop_x :: "real \<Rightarrow> real \<Rightarrow> quantity" where
  "loop_x r_1 r2 = (Cm, map2 (\<lambda>r p. np_times r (np_sin p)) (r_kept r_1 r2) (phi_kept r_1 r2))"

definition loop_y :: "real \<Rightarrow> real \<Rightarrow> quantity" where
  "loop_y r_1 r2 = quantity_of_zeros (length (r_kept r_1 r2))"

definition loop_z :: "real \<Rightarrow> real \<Rightarrow> quantity" where
  "loop_z r_1 r2 = (Cm, map2 (\<lambda>r p. np_times r (np_cos p)) (r_kept r_1 r2) (phi_kept r_1 r2))"

definition hcc_frame :: "real \<Rightarrow> real \<Rightarrow> observer" where
  "hcc_frame r_1 theta0 = \<lparr>lon = 0, lat = theta0, radius = r_1\<rparr>"

definition semi_circular_loop ::
  "root_finder \<Rightarrow> 'c sky_coord \<Rightarrow> real \<Rightarrow> real \<Rightarrow> real \<Rightarrow> error + 'c" where
  "semi_circular_loop find_root sky_coord R_sun len theta0 =
     (let r_1 = R_sun
      in case r_2 find_root r_1 len of
           Inl e \<Rightarrow> Inl e
         | Inr r2 \<Rightarrow>
             sky_coord (hcc_frame r_1 theta0) (loop_x r_1 r2) (loop_y r_1 r2) (loop_z r_1 r2))"

subsection \<open>The root finder\<close>

text \<open>
  Modelled from the spec: the bisection root finder (\<^verbatim>\<open>scipy.optimize.bisect\<close>, called
  with its default tolerances) is not among the sources. The spec describes a
  bisection-style numeric root finder that locates where a continuous function crosses
  zero within a bracketing interval and fails when the bracket holds no sign change.
  The model is interval halving: the function values at the two ends must be numbers of
  different sign (an end where the function is zero is returned at once); each step
  halves the interval, keeps the half whose ends differ in sign, and returns the midpoint
  once the function is zero there or the half-width is below the absolute tolerance
  \<open>xtol\<close> plus the relative tolerance \<open>rtol\<close> times the midpoint. After \<open>maxiter\<close>
  steps without that the finder fails. A function value that is not a number is
  never a sign change: the finder fails.
\<close>

record solver =
  xtol :: real
  rtol :: real
  maxiter :: nat

fun bisect_loop :: "solver \<Rightarrow> (real \<Rightarrow> float) \<Rightarrow> real \<Rightarrow> real \<Rightarrow> real \<Rightarrow> nat \<Rightarrow> error + real" where
  "bisect_loop s f xa fa dm 0 = Inl ConvergenceError"
| "bisect_loop s f xa fa dm (Suc n) =
     (let dm' = dm * 0.5; xm = xa + dm'
      in case f xm of
           None \<Rightarrow> Inl NanError
         | Some fm \<Rightarrow>
             if fm = 0 \<or> \<bar>dm'\<bar> < xtol s + rtol s * \<bar>xm\<bar> then Inr xm
             else bisect_loop s f (if 0 \<le> fm * fa then xm else xa) fa dm' n)"

definition bisect :: "solver \<Rightarrow> root_finder" where
  "bisect s f a b =
     (case f a of
        None \<Rightarrow> Inl NanError
      | Some fa \<Rightarrow>
          (case f b of
             None \<Rightarrow> Inl NanError
           | Some fb \<Rightarrow>
               if 0 < fa * fb then Inl SignError
               else if fa = 0 then Inr a
               else if fb = 0 then Inr b
               else bisect_loop s f a fa (b - a) (maxiter s)))"

text \<open>The tolerances and the iteration bound the source's call leaves at their defaults.\<close>

definition default_solver :: solver where
  "default_solver = \<lparr>xtol = 2 / 10 ^ 12, rtol = 8881784197001252 / 10 ^ 31, maxiter = 100\<rparr>"

subsection \<open>The frame transformation\<close>

text \<open>
  Modelled from the spec: the construction of the coordinate object and its
  transformation from the Heliocentric frame to the Heliographic Stonyhurst frame
  (\<^verbatim>\<open>SkyCoord(..., frame=hcc_frame).transform_to('heliographic_stonyhurst')\<close>, code of
  \<^verbatim>\<open>sunpy.coordinates\<close> and astropy) are not among the sources. The spec describes
  Cartesian points in a body-centred frame anchored at longitude 0 and latitude
  \<open>theta0\<close>, converted to body-centred longitude, latitude and radius. The model is that
  rotation, with the Heliocentric axes as sunpy documents them: \<open>z\<close> points from the
  body's centre to the observer, \<open>y\<close> to the north in the plane of \<open>z\<close> and the
  rotation axis, \<open>x\<close> to the west. Angles come back in degrees. The three components must
  be lengths: a component that carries no length unit is refused.
\<close>

definition arctan2 :: "real \<Rightarrow> real \<Rightarrow> real" where
  "arctan2 y x =
     (if 0 < x then arctan (y / x)
      else if x < 0 then (if 0 \<le> y then arctan (y / x) + pi else arctan (y / x) - pi)
      else if 0 < y then pi / 2
      else if y < 0 then - (pi / 2)
      else 0)"

definition np_arcsin :: "real \<Rightarrow> float" where
  "np_arcsin x = (if - 1 \<le> x \<and> x \<le> 1 then Some (arcsin x) else None)"

definition deg2rad :: "real \<Rightarrow> real" where
  "deg2rad d = d * pi / 180"

definition rad2deg :: "real \<Rightarrow> real" where
  "rad2deg t = t * 180 / pi"

record hgs_point =
  hgs_lon :: float
  hgs_lat :: float
  hgs_radius :: float

definition nan_point :: hgs_point where
  "nan_point = \<lparr>hgs_lon = None, hgs_lat = None, hgs_radius = None\<rparr>"

definition hcc_to_hgs :: "observer \<Rightarrow> real \<Rightarrow> real \<Rightarrow> real \<Rightarrow> hgs_point" where
  "hcc_to_hgs obs x y z =
     (let cosb = cos (deg2rad (lat obs));
          sinb = sin (deg2rad (lat obs));
          hecr = sqrt (x\<^sup>2 + y\<^sup>2 + z\<^sup>2);
          hgln = arctan2 x (z * cosb - y * sinb) + deg2rad (lon obs);
          hglt = (if hecr = 0 then None else np_arcsin ((y * cosb + z * sinb) / hecr))
      in \<lparr>hgs_lon = Some (rad2deg hgln), hgs_lat = map_option rad2deg hglt, hgs_radius = Some hecr\<rparr>)"

fun hcc_to_hgs_float :: "observer \<Rightarrow> float \<times> float \<times> float \<Rightarrow> hgs_point" where
  "hcc_to_hgs_float obs (Some x, Some y, Some z) = hcc_to_hgs obs x y z"
| "hcc_to_hgs_float obs p = nan_point"

definition sky_coord_hgs :: "hgs_point list sky_coord" where
  "sky_coord_hgs obs qx qy qz =
     (if fst qx = Cm \<and> fst qy = Cm \<and> fst qz = Cm
      then Inr (map (hcc_to_hgs_float obs) (zip (snd qx) (zip (snd qy) (snd qz))))
      else Inl UnitsError)"

text \<open>A collaborator that hands back the arrays it is given, to look at them.\<close>

definition sky_coord_id :: "(quantity \<times> quantity \<times> quantity) sky_coord" where
  "sky_coord_id obs qx qy qz = Inr (qx, qy, qz)"

section \<open>The sampled angles and the quadratic\<close>

lemma length_linspace: "length (linspace start stop num) = num"
  by (simp add: linspace_def Let_def)

lemma length_phi: "length (phi r_1 r2) = 2000"
  by (simp add: phi_def length_linspace split: option.splits)

lemma length_r_all: "length (r_all r_1 r2) = 2000"
  by (simp add: r_all_def length_phi)

lemma linspace_nth:
  assumes "k < num" "1 < num"
  shows "linspace start stop num ! k = start + real k * ((stop - start) / real (num - 1))"
proof (cases "k = num - 1")
  case True
  then have "real k * ((stop - start) / real (num - 1)) = stop - start"
    using assms by simp
  then show ?thesis using assms True by (simp add: linspace_def Let_def)
next
  case False
  then show ?thesis using assms by (simp add: linspace_def Let_def)
qed

lemma phi_nth:
  assumes "alpha r_1 r2 = Some al" "k < 2000"
  shows "phi r_1 r2 ! k = Some ((pi - al) * ((2 * real k - 1999) / 1999))"
proof -
  have "linspace (- pi + al) (pi - al) 2000 ! k = (pi - al) * ((2 * real k - 1999) / 1999)"
    using assms(2) by (simp add: linspace_nth field_simps)
  then show ?thesis using assms by (simp add: phi_def length_linspace)
qed

lemma quadratic_root:
  fixes b c r :: real
  assumes "0 \<le> b\<^sup>2 - 4 * c" and "r = (- b + sqrt (b\<^sup>2 - 4 * c)) / 2"
  shows "r\<^sup>2 + b * r + c = 0"
proof -
  have "(sqrt (b\<^sup>2 - 4 * c))\<^sup>2 = b\<^sup>2 - 4 * c" using assms(1) by simp
  then show ?thesis unfolding assms(2) by (simp add: power2_eq_square field_simps)
qed

lemma quadratic_root_greatest:
  fixes b c r' :: real
  assumes "r'\<^sup>2 + b * r' + c = 0"
  shows "r' \<le> (- b + sqrt (b\<^sup>2 - 4 * c)) / 2"
proof -
  have "(2 * r' + b)\<^sup>2 = b\<^sup>2 - 4 * c"
    using assms by (simp add: power2_eq_square algebra_simps)
  then have "2 * r' + b \<le> sqrt (b\<^sup>2 - 4 * c)"
    by (metis abs_le_iff order_refl real_sqrt_abs)
  then show ?thesis by simp
qed

lemma discriminant_eq:
  "(quad_b r_1 p)\<^sup>2 - 4 * quad_a * quad_c r_1 r2 = 4 * (r2\<^sup>2 - (to_cm r_1)\<^sup>2 * (sin p)\<^sup>2)"
proof -
  define R where "R = to_cm r_1"
  have "(- 2 * (R * cos p))\<^sup>2 - 4 * 1 * (R\<^sup>2 - r2\<^sup>2) = 4 * (r2\<^sup>2 - R\<^sup>2 * (1 - (cos p)\<^sup>2))"
    by (simp add: power2_eq_square algebra_simps)
  then show ?thesis
    by (simp only: quad_a_def quad_b_def quad_c_def R_def sin_squared_eq)
qed

lemma r_of_phi_Some:
  assumes "(to_cm r_1)\<^sup>2 * (sin p)\<^sup>2 \<le> r2\<^sup>2"
  shows "r_of_phi r_1 r2 (Some p) = Some (to_cm r_1 * cos p + sqrt (r2\<^sup>2 - (to_cm r_1)\<^sup>2 * (sin p)\<^sup>2))"
proof -
  define D where "D = r2\<^sup>2 - (to_cm r_1)\<^sup>2 * (sin p)\<^sup>2"
  have D: "0 \<le> D" using assms by (simp add: D_def)
  have disc: "(quad_b r_1 p)\<^sup>2 - 4 * quad_a * quad_c r_1 r2 = 4 * D"
    unfolding D_def by (rule discriminant_eq)
  have "sqrt 4 = (2::real)" using real_sqrt_abs[of "2::real"] by simp
  then have s: "sqrt (4 * D) = 2 * sqrt D" by (simp add: real_sqrt_mult)
  have "np_sqrt (4 * D) = Some (2 * sqrt D)" using D s by (simp add: np_sqrt_def)
  then have "r_of_phi r_1 r2 (Some p) = Some ((- quad_b r_1 p + 2 * sqrt D) / 2 / quad_a)"
    by (simp add: r_of_phi_def Let_def disc)
  then show ?thesis by (simp add: quad_a_def quad_b_def D_def)
qed

lemma r_of_phi_None:
  assumes "r2\<^sup>2 < (to_cm r_1)\<^sup>2 * (sin p)\<^sup>2"
  shows "r_of_phi r_1 r2 (Some p) = None"
proof -
  define D where "D = r2\<^sup>2 - (to_cm r_1)\<^sup>2 * (sin p)\<^sup>2"
  have D: "D < 0" using assms by (simp add: D_def)
  have disc: "(quad_b r_1 p)\<^sup>2 - 4 * quad_a * quad_c r_1 r2 = 4 * D"
    unfolding D_def by (rule discriminant_eq)
  have "np_sqrt (4 * D) = None" using D by (simp add: np_sqrt_def)
  then show ?thesis by (simp add: r_of_phi_def Let_def disc)
qed

lemma above_surface_iff:
  assumes "0 < to_cm r_1"
  shows "np_gt (r_of_phi r_1 r2 (Some p)) (to_cm r_1) \<longleftrightarrow> 2 * (to_cm r_1)\<^sup>2 * (1 - cos p) < r2\<^sup>2"
proof -
  define R where "R = to_cm r_1"
  define D where "D = r2\<^sup>2 - R\<^sup>2 * (sin p)\<^sup>2"
  have sq: "(sin p)\<^sup>2 = 1 - (cos p)\<^sup>2" by (rule sin_squared_eq)
  have key: "D - (R * (1 - cos p))\<^sup>2 = r2\<^sup>2 - 2 * R\<^sup>2 * (1 - cos p)"
    unfolding D_def sq by (simp add: power2_eq_square algebra_simps)
  have nonneg: "0 \<le> R * (1 - cos p)" using assms by (simp add: R_def)
  show ?thesis
  proof (cases "0 \<le> D")
    case True
    then have r: "r_of_phi r_1 r2 (Some p) = Some (R * cos p + sqrt D)"
      using r_of_phi_Some[of r_1 p r2] by (simp add: D_def R_def)
    have "R < R * cos p + sqrt D \<longleftrightarrow> R * (1 - cos p) < sqrt D"
      by (simp add: algebra_simps)
    also have "\<dots> \<longleftrightarrow> (R * (1 - cos p))\<^sup>2 < D"
      using nonneg True by (metis real_sqrt_less_iff real_sqrt_abs abs_of_nonneg)
    also have "\<dots> \<longleftrightarrow> 2 * R\<^sup>2 * (1 - cos p) < r2\<^sup>2"
      using key by linarith
    finally show ?thesis by (simp add: r np_gt_def R_def)
  next
    case False
    then have "r_of_phi r_1 r2 (Some p) = None"
      using r_of_phi_None[of r2 r_1 p] by (simp add: D_def R_def)
    moreover have "\<not> 2 * R\<^sup>2 * (1 - cos p) < r2\<^sup>2"
    proof
      assume "2 * R\<^sup>2 * (1 - cos p) < r2\<^sup>2"
      then have "(R * (1 - cos p))\<^sup>2 < D" using key by linarith
      moreover have "0 \<le> (R * (1 - cos p))\<^sup>2" by simp
      ultimately show False using False by linarith
    qed
    ultimately show ?thesis by (simp add: np_gt_def R_def)
  qed
qed

lemma r_all_nth: "k < 2000 \<Longrightarrow> r_all r_1 r2 ! k = r_of_phi r_1 r2 (phi r_1 r2 ! k)"
  by (simp add: r_all_def length_phi)

lemma i_r_iff: "k \<in> set (i_r r_1 r2) \<longleftrightarrow> k < 2000 \<and> np_gt (r_all r_1 r2 ! k) (to_cm r_1)"
  by (auto simp: i_r_def length_r_all)


lemma length_i_r_le: "length (i_r r_1 r2) \<le> 2000"
proof -
  have "length (i_r r_1 r2) \<le> length [0..<length (r_all r_1 r2)]"
    unfolding i_r_def by (rule length_filter_le)
  then show ?thesis by (simp add: length_r_all)
qed

lemma length_r_kept: "length (r_kept r_1 r2) = length (i_r r_1 r2)"
  by (simp add: r_kept_def index_with_def)

lemma length_phi_kept: "length (phi_kept r_1 r2) = length (i_r r_1 r2)"
  by (simp add: phi_kept_def index_with_def)

lemma r_kept_nth: "i < length (i_r r_1 r2) \<Longrightarrow> r_kept r_1 r2 ! i = r_all r_1 r2 ! (i_r r_1 r2 ! i)"
  by (simp add: r_kept_def index_with_def)

lemma phi_kept_nth: "i < length (i_r r_1 r2) \<Longrightarrow> phi_kept r_1 r2 ! i = phi r_1 r2 ! (i_r r_1 r2 ! i)"
  by (simp add: phi_kept_def index_with_def)

lemma map2_index_with:
  "map2 f (index_with xs idx) (index_with ys idx) = map (\<lambda>k. f (xs ! k) (ys ! k)) idx"
  by (simp add: index_with_def zip_map_map zip_same_conv_map comp_def)

lemma loop_x_eq:
  "loop_x r_1 r2 = (Cm, map (\<lambda>k. np_times (r_all r_1 r2 ! k) (np_sin (phi r_1 r2 ! k))) (i_r r_1 r2))"
  by (simp only: loop_x_def r_kept_def phi_kept_def map2_index_with)

lemma loop_z_eq:
  "loop_z r_1 r2 = (Cm, map (\<lambda>k. np_times (r_all r_1 r2 ! k) (np_cos (phi r_1 r2 ! k))) (i_r r_1 r2))"
  by (simp only: loop_z_def r_kept_def phi_kept_def map2_index_with)

lemma loop_y_eq: "loop_y r_1 r2 = quantity_of_zeros (length (i_r r_1 r2))"
  by (simp add: loop_y_def length_r_kept)

lemma length_loop_x: "length (snd (loop_x r_1 r2)) = length (i_r r_1 r2)"
  by (simp add: loop_x_eq)

lemma length_loop_y: "length (snd (loop_y r_1 r2)) = length (i_r r_1 r2)"
  by (simp add: loop_y_eq quantity_of_zeros_def)

lemma length_loop_z: "length (snd (loop_z r_1 r2)) = length (i_r r_1 r2)"
  by (simp add: loop_z_eq)

lemma kept_sample:
  assumes "k \<in> set (i_r r_1 r2)"
  shows "\<exists>p r. phi r_1 r2 ! k = Some p \<and> r_all r_1 r2 ! k = Some r \<and> to_cm r_1 < r
    \<and> r_of_phi r_1 r2 (Some p) = Some r"
proof -
  from assms have k: "k < 2000" and gt: "np_gt (r_all r_1 r2 ! k) (to_cm r_1)"
    by (simp_all add: i_r_iff)
  from gt obtain r where r: "r_all r_1 r2 ! k = Some r" "to_cm r_1 < r"
    by (auto simp: np_gt_def split: option.splits)
  have eq: "r_all r_1 r2 ! k = r_of_phi r_1 r2 (phi r_1 r2 ! k)" using k by (rule r_all_nth)
  with r(1) obtain p where p: "phi r_1 r2 ! k = Some p"
    by (cases "phi r_1 r2 ! k") (simp_all add: r_of_phi_def)
  show ?thesis using r p eq by simp
qed

lemma semi_circular_loop_eq:
  assumes "r_2 find_root r_1 len = Inr r2"
  shows "semi_circular_loop find_root sky_coord r_1 len theta0 =
    sky_coord \<lparr>lon = 0, lat = theta0, radius = r_1\<rparr> (loop_x r_1 r2) (loop_y r_1 r2) (loop_z r_1 r2)"
  using assms by (simp add: semi_circular_loop_def hcc_frame_def)

lemma semi_circular_loop_error:
  assumes "r_2 find_root r_1 len = Inl e"
  shows "semi_circular_loop find_root sky_coord r_1 len theta0 = Inl e"
  using assms by (simp add: semi_circular_loop_def)

lemma alpha_SomeD:
  assumes "alpha r_1 r2 = Some al"
  shows "al = arccos (0.5 * (r2 / to_cm r_1))" and "0 \<le> al" and "al \<le> pi"
    and "- 1 \<le> 0.5 * (r2 / to_cm r_1)" and "0.5 * (r2 / to_cm r_1) \<le> 1"
    and "cos al = 0.5 * (r2 / to_cm r_1)"
proof -
  from assms have rng: "- 1 \<le> 0.5 * (r2 / to_cm r_1) \<and> 0.5 * (r2 / to_cm r_1) \<le> 1"
    and al: "al = arccos (0.5 * (r2 / to_cm r_1))"
    by (auto simp: alpha_def np_arccos_def split: if_splits)
  show "al = arccos (0.5 * (r2 / to_cm r_1))" by (rule al)
  show "- 1 \<le> 0.5 * (r2 / to_cm r_1)" "0.5 * (r2 / to_cm r_1) \<le> 1" using rng by simp_all
  show "0 \<le> al" "al \<le> pi" unfolding al using rng by (simp_all add: arccos_lbound arccos_ubound)
  show "cos al = 0.5 * (r2 / to_cm r_1)" unfolding al using rng by (simp add: cos_arccos)
qed

lemma phi_nth_bounds:
  assumes "alpha r_1 r2 = Some al" "k < 2000"
  shows "\<exists>p. phi r_1 r2 ! k = Some p \<and> - pi + al \<le> p \<and> p \<le> pi - al \<and> \<bar>p\<bar> \<le> pi - al"
proof -
  have nn: "0 \<le> pi - al" using alpha_SomeD(3)[OF assms(1)] by simp
  have "\<bar>(2 * real k - 1999) / 1999\<bar> \<le> 1" using assms(2) by (simp add: abs_le_iff)
  then have "\<bar>(pi - al) * ((2 * real k - 1999) / 1999)\<bar> \<le> (pi - al) * 1"
    unfolding abs_mult using nn by (intro mult_mono) simp_all
  then have "\<bar>(pi - al) * ((2 * real k - 1999) / 1999)\<bar> \<le> pi - al" by simp
  then have "- pi + al \<le> (pi - al) * ((2 * real k - 1999) / 1999)
      \<and> (pi - al) * ((2 * real k - 1999) / 1999) \<le> pi - al
      \<and> \<bar>(pi - al) * ((2 * real k - 1999) / 1999)\<bar> \<le> pi - al"
    by linarith
  then show ?thesis using phi_nth[OF assms] by blast
qed

text \<open>
  Claim C3. For each sampled angle \<open>phi\<close> the radial distance \<open>r\<close> computed by
  \<^verbatim>\<open>semi_circular_loop\<close> is the root with the plus sign of the quadratic
  \<open>r\<^sup>2 - 2 r\<^sub>1 cos(phi) r + (r\<^sub>1\<^sup>2 - r\<^sub>2\<^sup>2) = 0\<close>, that is
  \<open>r = (- b + sqrt (b\<^sup>2 - 4 a c)) / (2 a)\<close> with \<open>a = 1\<close>, \<open>b = - 2 r\<^sub>1 cos(phi)\<close> and
  \<open>c = r\<^sub>1\<^sup>2 - r\<^sub>2\<^sup>2\<close>. The theorem gives the value of every entry of the array \<open>r\<close>
  (\<^verbatim>\<open>nan\<close> exactly where the discriminant is negative) and shows that a value that is a
  number solves the quadratic and is the greater of its roots.
\<close>

theorem r_solves_quadratic:
  assumes "k < 2000" and "phi r_1 r2 ! k = Some p"
  shows "r_all r_1 r2 ! k =
           (if (quad_b r_1 p)\<^sup>2 - 4 * quad_a * quad_c r_1 r2 < 0 then None
            else Some ((- quad_b r_1 p + sqrt ((quad_b r_1 p)\<^sup>2 - 4 * quad_a * quad_c r_1 r2)) / (2 * quad_a)))
       \<and> quad_a = 1 \<and> quad_b r_1 p = - 2 * to_cm r_1 * cos p \<and> quad_c r_1 r2 = (to_cm r_1)\<^sup>2 - r2\<^sup>2
       \<and> (\<forall>r. r_all r_1 r2 ! k = Some r \<longrightarrow>
             r\<^sup>2 - 2 * to_cm r_1 * cos p * r + ((to_cm r_1)\<^sup>2 - r2\<^sup>2) = 0
           \<and> (\<forall>r'. r'\<^sup>2 - 2 * to_cm r_1 * cos p * r' + ((to_cm r_1)\<^sup>2 - r2\<^sup>2) = 0 \<longrightarrow> r' \<le> r))"
proof -
  define b where "b = quad_b r_1 p"
  define c where "c = quad_c r_1 r2"
  have b: "b = - 2 * to_cm r_1 * cos p" by (simp add: b_def quad_b_def)
  have c: "c = (to_cm r_1)\<^sup>2 - r2\<^sup>2" by (simp add: c_def quad_c_def)
  have val: "r_all r_1 r2 ! k =
      (if b\<^sup>2 - 4 * c < 0 then None else Some ((- b + sqrt (b\<^sup>2 - 4 * c)) / 2))"
    using assms by (simp add: r_all_nth r_of_phi_def Let_def np_sqrt_def quad_a_def b_def c_def not_le)
  have root: "r\<^sup>2 + b * r + c = 0 \<and> (\<forall>r'. r'\<^sup>2 + b * r' + c = 0 \<longrightarrow> r' \<le> r)"
    if "r_all r_1 r2 ! k = Some r" for r
  proof -
    from that val have d: "0 \<le> b\<^sup>2 - 4 * c" and r: "r = (- b + sqrt (b\<^sup>2 - 4 * c)) / 2"
      by (auto split: if_splits)
    show ?thesis using quadratic_root[OF d r] quadratic_root_greatest[of _ b c] r by blast
  qed
  have "r\<^sup>2 - 2 * to_cm r_1 * cos p * r + ((to_cm r_1)\<^sup>2 - r2\<^sup>2) = 0
      \<and> (\<forall>r'. r'\<^sup>2 - 2 * to_cm r_1 * cos p * r' + ((to_cm r_1)\<^sup>2 - r2\<^sup>2) = 0 \<longrightarrow> r' \<le> r)"
    if "r_all r_1 r2 ! k = Some r" for r
    using root[OF that] unfolding b c by (simp add: algebra_simps)
  then show ?thesis using val by (simp add: quad_a_def b_def[symmetric] c_def[symmetric] b c)
qed

section \<open>The bisection loop converges\<close>

lemma sign_change_root:
  fixes g :: "real \<Rightarrow> real"
  assumes cont: "continuous_on {lo..hi} g"
    and u: "lo \<le> u" "u \<le> hi" and v: "lo \<le> v" "v \<le> hi"
    and sign: "g u * g v \<le> 0"
  shows "\<exists>x. min u v \<le> x \<and> x \<le> max u v \<and> g x = 0"
proof -
  define a where "a = min u v"
  define b where "b = max u v"
  have ab: "a \<le> b" "lo \<le> a" "b \<le> hi" using u v by (simp_all add: a_def b_def)
  have cont': "continuous_on {a..b} g"
    using cont ab by (auto intro: continuous_on_subset)
  have "g a * g b \<le> 0" using sign by (simp add: a_def b_def min_def max_def mult.commute)
  then consider "g a \<le> 0 \<and> 0 \<le> g b" | "g b \<le> 0 \<and> 0 \<le> g a"
    by (auto simp: mult_le_0_iff)
  then have "\<exists>x. a \<le> x \<and> x \<le> b \<and> g x = 0"
  proof cases
    case 1
    then show ?thesis using IVT'[of g a 0 b] ab(1) cont' by simp
  next
    case 2
    then show ?thesis using IVT2'[of g b 0 a] ab(1) cont' by simp
  qed
  then show ?thesis by (simp add: a_def b_def)
qed

lemma opposite_signs:
  fixes p q fa :: real
  assumes "0 < p * fa" and "q * fa < 0"
  shows "p * q < 0"
proof -
  have "(p * fa) * (q * fa) < 0" using assms by (simp add: mult_pos_neg)
  then have "(p * q) * (fa * fa) < 0" by (simp add: mult_ac)
  moreover have "0 \<le> fa * fa" by simp
  ultimately show ?thesis by (simp add: mult_less_0_iff)
qed

lemma midpoint_bounds:
  fixes xa dm lo hi :: real
  assumes "lo \<le> xa" "xa \<le> hi" "lo \<le> xa + dm" "xa + dm \<le> hi"
  shows "lo \<le> xa + dm / 2" and "xa + dm / 2 \<le> hi"
  using assms by (cases "0 \<le> dm"; simp)+

lemma bisect_return:
  fixes g :: "real \<Rightarrow> real"
  assumes cont: "continuous_on {lo..hi} g"
    and bnd: "lo \<le> xa" "xa \<le> hi" "lo \<le> xa + dm" "xa + dm \<le> hi"
    and sa: "0 < g xa * fa" and sb: "g (xa + dm) * fa < 0"
    and stop: "g (xa + dm / 2) = 0 \<or> \<bar>dm / 2\<bar> < tol"
  shows "\<exists>root. lo \<le> root \<and> root \<le> hi \<and> g root = 0
    \<and> (xa + dm / 2 = root \<or> \<bar>xa + dm / 2 - root\<bar> < tol)"
proof -
  define xm where "xm = xa + dm / 2"
  have xm: "lo \<le> xm" "xm \<le> hi" unfolding xm_def using midpoint_bounds[OF bnd] by simp_all
  show ?thesis
  proof (cases "g xm = 0")
    case True
    then show ?thesis using xm unfolding xm_def by blast
  next
    case False
    with stop have tol: "\<bar>dm / 2\<bar> < tol" by (simp add: xm_def)
    show ?thesis
    proof (cases "0 \<le> g xm * fa")
      case True
      have "fa \<noteq> 0" using sa by auto
      with True False have "0 < g xm * fa" by (simp add: less_le)
      then have "g xm * g (xa + dm) < 0" using sb by (rule opposite_signs)
      then obtain root where r: "min xm (xa + dm) \<le> root" "root \<le> max xm (xa + dm)" "g root = 0"
        using sign_change_root[OF cont xm bnd(3,4)] by (auto simp: less_imp_le)
      have "\<bar>xm - root\<bar> \<le> \<bar>dm / 2\<bar>" using r(1,2) unfolding xm_def by (simp add: min_def max_def abs_le_iff split: if_splits)
      moreover have "lo \<le> root" "root \<le> hi" using r(1,2) xm bnd by (simp_all add: min_def max_def split: if_splits)
      ultimately show ?thesis using r(3) tol unfolding xm_def by (intro exI[of _ root]) simp
    next
      case False
      then have "g xm * fa < 0" by simp
      with sa have "g xa * g xm < 0" by (rule opposite_signs)
      then obtain root where r: "min xa xm \<le> root" "root \<le> max xa xm" "g root = 0"
        using sign_change_root[OF cont bnd(1,2) xm] by (auto simp: less_imp_le)
      have "\<bar>xm - root\<bar> \<le> \<bar>dm / 2\<bar>" using r(1,2) unfolding xm_def by (simp add: min_def max_def abs_le_iff split: if_splits)
      moreover have "lo \<le> root" "root \<le> hi" using r(1,2) xm bnd by (simp_all add: min_def max_def split: if_splits)
      ultimately show ?thesis using r(3) tol unfolding xm_def by (intro exI[of _ root]) simp
    qed
  qed
qed

lemma bisect_loop_converges:
  fixes g :: "real \<Rightarrow> real"
  assumes rtol: "0 \<le> rtol s"
    and dom: "\<And>x. lo \<le> x \<Longrightarrow> x \<le> hi \<Longrightarrow> f x = Some (g x)"
    and cont: "continuous_on {lo..hi} g"
  shows "lo \<le> xa \<Longrightarrow> xa \<le> hi \<Longrightarrow> lo \<le> xa + dm \<Longrightarrow> xa + dm \<le> hi
    \<Longrightarrow> 0 < g xa * fa \<Longrightarrow> g (xa + dm) * fa < 0 \<Longrightarrow> \<bar>dm\<bar> / 2 ^ Suc n < xtol s
    \<Longrightarrow> \<exists>x root. bisect_loop s f xa fa dm (Suc n) = Inr x \<and> lo \<le> x \<and> x \<le> hi
          \<and> lo \<le> root \<and> root \<le> hi \<and> g root = 0
          \<and> (x = root \<or> \<bar>x - root\<bar> < xtol s + rtol s * \<bar>x\<bar>)"
proof (induction n arbitrary: xa dm)
  case 0
  define xm where "xm = xa + dm / 2"
  have xm: "lo \<le> xm" "xm \<le> hi" unfolding xm_def using midpoint_bounds[OF "0.prems"(1-4)] by simp_all
  have fxm: "f xm = Some (g xm)" using dom xm by simp
  have "\<bar>dm / 2\<bar> < xtol s" using "0.prems"(7) by (simp add: abs_mult)
  moreover have "0 \<le> rtol s * \<bar>xm\<bar>" using rtol by simp
  ultimately have stop: "g xm = 0 \<or> \<bar>dm / 2\<bar> < xtol s + rtol s * \<bar>xm\<bar>" by linarith
  then have run: "bisect_loop s f xa fa dm (Suc 0) = Inr xm"
    using fxm unfolding xm_def by (simp add: Let_def)
  from bisect_return[OF cont "0.prems"(1-6), of "xtol s + rtol s * \<bar>xm\<bar>"] stop
  obtain root where "lo \<le> root" "root \<le> hi" "g root = 0"
      "xm = root \<or> \<bar>xm - root\<bar> < xtol s + rtol s * \<bar>xm\<bar>"
    unfolding xm_def by blast
  then show ?case using run xm by blast
next
  case (Suc n)
  define xm where "xm = xa + dm / 2"
  have xm: "lo \<le> xm" "xm \<le> hi" unfolding xm_def using midpoint_bounds[OF Suc.prems(1-4)] by simp_all
  have fxm: "f xm = Some (g xm)" using dom xm by simp
  show ?case
  proof (cases "g xm = 0 \<or> \<bar>dm / 2\<bar> < xtol s + rtol s * \<bar>xm\<bar>")
    case True
    then have run: "bisect_loop s f xa fa dm (Suc (Suc n)) = Inr xm"
      using fxm unfolding xm_def by (simp add: Let_def)
    from bisect_return[OF cont Suc.prems(1-6), of "xtol s + rtol s * \<bar>xm\<bar>"] True
    obtain root where "lo \<le> root" "root \<le> hi" "g root = 0"
        "xm = root \<or> \<bar>xm - root\<bar> < xtol s + rtol s * \<bar>xm\<bar>"
      unfolding xm_def by blast
    then show ?thesis using run xm by blast
  next
    case False
    define xa' where "xa' = (if 0 \<le> g xm * fa then xm else xa)"
    have run: "bisect_loop s f xa fa dm (Suc (Suc n)) = bisect_loop s f xa' fa (dm / 2) (Suc n)"
      using fxm False unfolding xm_def xa'_def by (simp add: Let_def)
    have nz: "g xm \<noteq> 0" using False by simp
    have fa: "fa \<noteq> 0" using Suc.prems(5) by auto
    have b1: "lo \<le> xa'" "xa' \<le> hi" using xm Suc.prems(1,2) by (simp_all add: xa'_def)
    have b2: "lo \<le> xa' + dm / 2" "xa' + dm / 2 \<le> hi"
      using xm Suc.prems(3,4) by (simp_all add: xa'_def xm_def)
    have s1: "0 < g xa' * fa"
      using Suc.prems(5) nz fa by (simp add: xa'_def less_le)
    have "xm + dm / 2 = xa + dm" by (simp add: xm_def)
    then have s2: "g (xa' + dm / 2) * fa < 0"
      using Suc.prems(6) by (simp add: xa'_def not_le) (simp add: xm_def)
    have w: "\<bar>dm / 2\<bar> / 2 ^ Suc n < xtol s"
      using Suc.prems(7) by (simp add: abs_mult)
    from Suc.IH[OF b1 b2 s1 s2 w] show ?thesis unfolding run .
  qed
qed

lemma bisect_loop_in_bracket:
  "bisect_loop s f xa fa dm n = Inr x \<Longrightarrow> min xa (xa + dm) \<le> x \<and> x \<le> max xa (xa + dm)"
proof (induction n arbitrary: xa dm)
  case 0
  then show ?case by simp
next
  case (Suc n)
  show ?case
  proof (cases "f (xa + dm / 2)")
    case None
    with Suc.prems show ?thesis by (simp add: Let_def)
  next
    case (Some fm)
    show ?thesis
    proof (cases "fm = 0 \<or> \<bar>dm / 2\<bar> < xtol s + rtol s * \<bar>xa + dm / 2\<bar>")
      case True
      with Suc.prems Some have "x = xa + dm / 2" by (simp add: Let_def)
      then show ?thesis by (simp add: min_def max_def)
    next
      case False
      define xa' where "xa' = (if 0 \<le> fm * fa then xa + dm / 2 else xa)"
      from Suc.prems Some False have "bisect_loop s f xa' fa (dm / 2) n = Inr x"
        unfolding xa'_def by (simp add: Let_def)
      from Suc.IH[OF this] have ih: "min xa' (xa' + dm / 2) \<le> x" "x \<le> max xa' (xa' + dm / 2)"
        by simp_all
      show ?thesis
      proof (cases "0 \<le> dm")
        case True
        then have "xa \<le> xa'" "xa' + dm / 2 \<le> xa + dm" "xa' \<le> xa' + dm / 2"
          by (simp_all add: xa'_def)
        with ih True show ?thesis by (simp add: min_def max_def)
      next
        case False
        then have "xa' \<le> xa" "xa + dm \<le> xa' + dm / 2" "xa' + dm / 2 \<le> xa'"
          by (simp_all add: xa'_def)
        with ih False show ?thesis by (simp add: min_def max_def)
      qed
    qed
  qed
qed

lemma bisect_in_bracket:
  assumes "bisect s f a b = Inr x"
  shows "min a b \<le> x \<and> x \<le> max a b"
proof -
  from assms obtain fa fb where fa: "f a = Some fa" and fb: "f b = Some fb"
    by (auto simp: bisect_def split: option.splits)
  from assms fa fb have "x = a \<or> x = b \<or> bisect_loop s f a fa (b - a) (maxiter s) = Inr x"
    by (simp add: bisect_def split: if_splits)
  then consider "x = a" | "x = b" | "bisect_loop s f a fa (b - a) (maxiter s) = Inr x"
    by blast
  then show ?thesis
  proof cases
    case 3
    from bisect_loop_in_bracket[OF this] show ?thesis by simp
  qed (simp_all add: min_def max_def)
qed

lemma bisect_sign_error:
  assumes "f a = Some fa" "f b = Some fb" "0 < fa * fb"
  shows "bisect s f a b = Inl SignError"
  using assms by (simp add: bisect_def)

lemma bisect_nan_error:
  assumes "f a = None \<or> f b = None"
  shows "bisect s f a b = Inl NanError"
  using assms by (auto simp: bisect_def split: option.splits)

lemma bisect_finds_root:
  fixes g :: "real \<Rightarrow> real"
  assumes rtol: "0 \<le> rtol s"
    and ab: "a \<le> b"
    and dom: "\<And>x. a \<le> x \<Longrightarrow> x \<le> b \<Longrightarrow> f x = Some (g x)"
    and cont: "continuous_on {a..b} g"
    and sign: "g a * g b \<le> 0"
    and fuel: "0 < maxiter s" "(b - a) / 2 ^ maxiter s < xtol s"
  shows "\<exists>x root. bisect s f a b = Inr x \<and> a \<le> x \<and> x \<le> b \<and> a \<le> root \<and> root \<le> b
    \<and> g root = 0 \<and> (x = root \<or> \<bar>x - root\<bar> < xtol s + rtol s * \<bar>x\<bar>)"
proof -
  have fa: "f a = Some (g a)" and fb: "f b = Some (g b)" using dom ab by simp_all
  have nsign: "\<not> 0 < g a * g b" using sign by simp
  show ?thesis
  proof (cases "g a = 0")
    case True
    then have "bisect s f a b = Inr a" using fa fb by (simp add: bisect_def)
    then show ?thesis using True ab by blast
  next
    case ga: False
    show ?thesis
    proof (cases "g b = 0")
      case True
      then have "bisect s f a b = Inr b" using fa fb ga by (simp add: bisect_def)
      then show ?thesis using True ab by blast
    next
      case gb: False
      obtain n where n: "maxiter s = Suc n" using fuel(1) by (cases "maxiter s") simp_all
      have run: "bisect s f a b = bisect_loop s f a (g a) (b - a) (Suc n)"
        using fa fb ga gb nsign by (simp add: bisect_def n)
      have "0 < (g a)\<^sup>2" using ga by simp
      then have s1: "0 < g a * g a" by (simp add: power2_eq_square)
      have "g a * g b < 0" using sign ga gb by (simp add: less_le)
      then have s2: "g (a + (b - a)) * g a < 0" by (simp add: mult.commute)
      have w: "\<bar>b - a\<bar> / 2 ^ Suc n < xtol s" using fuel(2) ab by (simp add: n)
      have b1: "a \<le> a" "a \<le> b" "a \<le> a + (b - a)" "a + (b - a) \<le> b" using ab by simp_all
      from bisect_loop_converges[OF rtol dom cont b1 s1 s2 w]
      obtain x root where "bisect_loop s f a (g a) (b - a) (Suc n) = Inr x" "a \<le> x" "x \<le> b"
          "a \<le> root" "root \<le> b" "g root = 0" "x = root \<or> \<bar>x - root\<bar> < xtol s + rtol s * \<bar>x\<bar>"
        by blast
      then show ?thesis unfolding run by blast
    qed
  qed
qed

section \<open>The root equation on its bracket\<close>

lemma bracket_hi_eq: "bracket_hi len = 2 * bracket_lo len"
  by (simp add: bracket_hi_def bracket_lo_def)

lemma bracket_lo_pos: "0 < len \<Longrightarrow> 0 < bracket_lo len"
  by (simp add: bracket_lo_def to_cm_def)

lemma bracket_hi_le:
  assumes "0 < r_1" "len \<le> 2 * pi * r_1"
  shows "bracket_hi len \<le> 2 * to_cm r_1"
proof -
  have "to_cm len \<le> 2 * to_cm r_1 * pi" using assms by (simp add: to_cm_def algebra_simps)
  then show ?thesis by (simp add: bracket_hi_def pos_divide_le_eq)
qed

lemma half_ratio_bounds:
  assumes "0 < r_1" "0 \<le> x" "x \<le> 2 * to_cm r_1"
  shows "0 \<le> 0.5 * x / to_cm r_1" and "0.5 * x / to_cm r_1 \<le> 1"
  using assms by (simp_all add: to_cm_def)

lemma r_2_func_defined:
  assumes "0 < r_1" "0 < x" "x \<le> 2 * to_cm r_1"
  shows "r_2_func r_1 len x = Some (arccos (0.5 * x / to_cm r_1) - pi + to_cm len / 2 / x)"
proof -
  have "0 \<le> 0.5 * x / to_cm r_1" "0.5 * x / to_cm r_1 \<le> 1"
    using half_ratio_bounds[of r_1 x] assms by simp_all
  then have "np_arccos (0.5 * x / to_cm r_1) = Some (arccos (0.5 * x / to_cm r_1))"
    by (simp add: np_arccos_def)
  then show ?thesis using assms(2) by (simp add: r_2_func_def)
qed

lemma r_2_func_continuous:
  assumes "0 < r_1" "0 < lo" "hi \<le> 2 * to_cm r_1"
  shows "continuous_on {lo..hi} (\<lambda>x. arccos (0.5 * x / to_cm r_1) - pi + to_cm len / 2 / x)"
proof -
  have rng: "\<forall>x\<in>{lo..hi}. - 1 \<le> 0.5 * x / to_cm r_1 \<and> 0.5 * x / to_cm r_1 \<le> 1"
  proof
    fix x assume "x \<in> {lo..hi}"
    then have "0 \<le> x" "x \<le> 2 * to_cm r_1" using assms by simp_all
    from half_ratio_bounds[OF assms(1) this] show "- 1 \<le> 0.5 * x / to_cm r_1 \<and> 0.5 * x / to_cm r_1 \<le> 1"
      by simp
  qed
  have nz: "\<forall>x\<in>{lo..hi}. x \<noteq> 0" using assms(2) by auto
  have R: "to_cm r_1 \<noteq> 0" using assms(1) by (simp add: to_cm_def)
  have c0: "continuous_on {lo..hi} (\<lambda>x. 0.5 * x / to_cm r_1)"
    using R by (auto intro!: continuous_intros)
  have c1: "continuous_on {lo..hi} (\<lambda>x. arccos (0.5 * x / to_cm r_1))"
    using c0 rng by (rule continuous_on_arccos)
  have c2: "continuous_on {lo..hi} (\<lambda>x. to_cm len / 2 / x)"
    using nz by (auto intro!: continuous_intros)
  show ?thesis by (intro continuous_intros c1 c2)
qed

lemma r_2_func_decreasing:
  assumes "0 < r_1" "0 < len" "0 < x" "x < y" "y \<le> 2 * to_cm r_1"
  shows "arccos (0.5 * y / to_cm r_1) - pi + to_cm len / 2 / y
       < arccos (0.5 * x / to_cm r_1) - pi + to_cm len / 2 / x"
proof -
  have R: "0 < to_cm r_1" using assms(1) by (simp add: to_cm_def)
  have "0.5 * x / to_cm r_1 < 0.5 * y / to_cm r_1"
    using assms(4) R by (simp add: divide_strict_right_mono)
  moreover have "0 \<le> 0.5 * x / to_cm r_1" using assms(3) R by simp
  then have "- 1 \<le> 0.5 * x / to_cm r_1" by linarith
  moreover have "0.5 * y / to_cm r_1 \<le> 1"
    using half_ratio_bounds(2)[of r_1 y] assms by simp
  ultimately have a: "arccos (0.5 * y / to_cm r_1) < arccos (0.5 * x / to_cm r_1)"
    by (intro arccos_less_arccos)
  have "0 < to_cm len / 2" using assms(2) by (simp add: to_cm_def)
  then have "to_cm len / 2 / y < to_cm len / 2 / x"
    using assms(3,4) by (simp add: frac_less2)
  with a show ?thesis by simp
qed

lemma r_2_func_at_lo:
  assumes "0 < r_1" "0 < len" "len \<le> 2 * pi * r_1"
  shows "0 \<le> arccos (0.5 * bracket_lo len / to_cm r_1) - pi + to_cm len / 2 / bracket_lo len"
proof -
  have "to_cm len / 2 / bracket_lo len = pi"
    using assms(2) by (simp add: bracket_lo_def to_cm_def)
  moreover have "0 \<le> arccos (0.5 * bracket_lo len / to_cm r_1)"
  proof (rule arccos_lbound)
    have lo: "0 \<le> bracket_lo len" "bracket_lo len \<le> 2 * to_cm r_1"
      using bracket_lo_pos[OF assms(2)] bracket_hi_le[OF assms(1,3)] by (simp_all add: bracket_hi_eq)
    from half_ratio_bounds[OF assms(1) lo]
    show "- 1 \<le> 0.5 * bracket_lo len / to_cm r_1" "0.5 * bracket_lo len / to_cm r_1 \<le> 1" by simp_all
  qed
  ultimately show ?thesis by simp
qed

lemma r_2_func_at_hi:
  assumes "0 < r_1" "0 < len" "len \<le> 2 * pi * r_1"
  shows "arccos (0.5 * bracket_hi len / to_cm r_1) - pi + to_cm len / 2 / bracket_hi len \<le> 0"
proof -
  have "to_cm len / 2 / bracket_hi len = pi / 2"
    using assms(2) by (simp add: bracket_hi_def to_cm_def)
  moreover have "arccos (0.5 * bracket_hi len / to_cm r_1) \<le> pi / 2"
  proof (rule arccos_le_pi2)
    have hi: "0 \<le> bracket_hi len" "bracket_hi len \<le> 2 * to_cm r_1"
      using bracket_lo_pos[OF assms(2)] bracket_hi_le[OF assms(1,3)] by (simp_all add: bracket_hi_eq)
    from half_ratio_bounds[OF assms(1) hi]
    show "0 \<le> 0.5 * bracket_hi len / to_cm r_1" "0.5 * bracket_hi len / to_cm r_1 \<le> 1" by simp_all
  qed
  ultimately show ?thesis by simp
qed

lemma r_2_bisect:
  assumes r1: "0 < r_1" and len: "0 < len" "len \<le> 2 * pi * r_1"
    and rtol: "0 \<le> rtol s"
    and fuel: "0 < maxiter s" "(bracket_hi len - bracket_lo len) / 2 ^ maxiter s < xtol s"
  shows "\<exists>r2 root. r_2 (bisect s) r_1 len = Inr r2
    \<and> bracket_lo len \<le> r2 \<and> r2 \<le> bracket_hi len
    \<and> bracket_lo len \<le> root \<and> root \<le> bracket_hi len
    \<and> r_2_func r_1 len root = Some 0
    \<and> (r2 = root \<or> \<bar>r2 - root\<bar> < xtol s + rtol s * \<bar>r2\<bar>)"
proof -
  define g where "g = (\<lambda>x. arccos (0.5 * x / to_cm r_1) - pi + to_cm len / 2 / x)"
  have lo: "0 < bracket_lo len" by (rule bracket_lo_pos[OF len(1)])
  have hi: "bracket_hi len \<le> 2 * to_cm r_1" by (rule bracket_hi_le[OF r1 len(2)])
  have ab: "bracket_lo len \<le> bracket_hi len" using lo by (simp add: bracket_hi_eq)
  have dom: "r_2_func r_1 len x = Some (g x)" if "bracket_lo len \<le> x" "x \<le> bracket_hi len" for x
    unfolding g_def using that lo hi by (intro r_2_func_defined[OF r1]) simp_all
  have cont: "continuous_on {bracket_lo len..bracket_hi len} g"
    unfolding g_def by (rule r_2_func_continuous[OF r1 lo hi])
  have "0 \<le> g (bracket_lo len)" unfolding g_def by (rule r_2_func_at_lo[OF r1 len])
  moreover have "g (bracket_hi len) \<le> 0" unfolding g_def by (rule r_2_func_at_hi[OF r1 len])
  ultimately have sign: "g (bracket_lo len) * g (bracket_hi len) \<le> 0"
    by (simp add: mult_le_0_iff)
  from bisect_finds_root[of s "bracket_lo len" "bracket_hi len" "r_2_func r_1 len" g,
      OF rtol ab dom cont sign fuel]
  obtain x root where res: "bisect s (r_2_func r_1 len) (bracket_lo len) (bracket_hi len) = Inr x"
      "bracket_lo len \<le> x" "x \<le> bracket_hi len" "bracket_lo len \<le> root" "root \<le> bracket_hi len"
      "g root = 0" "x = root \<or> \<bar>x - root\<bar> < xtol s + rtol s * \<bar>x\<bar>"
    by blast
  have "r_2_func r_1 len root = Some 0" using dom[OF res(4,5)] res(6) by simp
  then show ?thesis using res unfolding r_2_def by blast
qed

lemma default_solver_fuel:
  assumes "0 < len" "len \<le> 10 ^ 10"
  shows "(bracket_hi len - bracket_lo len) / 2 ^ maxiter default_solver < xtol default_solver"
proof -
  have "bracket_hi len - bracket_lo len = to_cm len / (2 * pi)"
    by (simp add: bracket_hi_def bracket_lo_def field_simps)
  also have "\<dots> \<le> to_cm len / (2 * 2)"
    using assms(1) pi_ge_two by (intro divide_left_mono) (simp_all add: to_cm_def)
  also have "\<dots> \<le> 10 ^ 12 / 4" using assms(2) by (simp add: to_cm_def)
  finally have "bracket_hi len - bracket_lo len \<le> 10 ^ 12 / 4" .
  then have "(bracket_hi len - bracket_lo len) / 2 ^ 100 \<le> 10 ^ 12 / 4 / 2 ^ 100"
    by (simp add: divide_right_mono)
  also have "\<dots> < (2::real) / 10 ^ 12" by simp
  finally show ?thesis by (simp add: default_solver_def)
qed

lemma r_2_bisect_default:
  assumes "0 < r_1" "0 < len" "len \<le> 2 * pi * r_1" "len \<le> 10 ^ 10"
  shows "\<exists>r2 root. r_2 (bisect default_solver) r_1 len = Inr r2
    \<and> bracket_lo len \<le> r2 \<and> r2 \<le> bracket_hi len
    \<and> bracket_lo len \<le> root \<and> root \<le> bracket_hi len
    \<and> r_2_func r_1 len root = Some 0
    \<and> (r2 = root \<or> \<bar>r2 - root\<bar> < xtol default_solver + rtol default_solver * \<bar>r2\<bar>)"
proof (rule r_2_bisect[OF assms(1-3)])
  show "0 \<le> rtol default_solver" "0 < maxiter default_solver" by (simp_all add: default_solver_def)
  show "(bracket_hi len - bracket_lo len) / 2 ^ maxiter default_solver < xtol default_solver"
    by (rule default_solver_fuel[OF assms(2,4)])
qed

section \<open>Which samples are kept\<close>

lemma cos_ge_parabola: "1 - x\<^sup>2 / 2 \<le> cos (x::real)"
proof -
  have "cos x = 1 - 2 * (sin (x / 2))\<^sup>2" using cos_double_sin[of "x / 2"] by simp
  moreover have "(sin (x / 2))\<^sup>2 \<le> (x / 2)\<^sup>2"
    using abs_sin_x_le_abs_x[of "x / 2"] by (simp only: abs_le_square_iff)
  ultimately show ?thesis by (simp add: power2_eq_square)
qed

lemma i_r_member:
  assumes "0 < r_1" "k < 2000" "phi r_1 r2 ! k = Some p"
  shows "k \<in> set (i_r r_1 r2) \<longleftrightarrow> 2 * (to_cm r_1)\<^sup>2 * (1 - cos p) < r2\<^sup>2"
proof -
  have R: "0 < to_cm r_1" using assms(1) by (simp add: to_cm_def)
  show ?thesis using assms(2,3) above_surface_iff[OF R] by (simp add: i_r_iff r_all_nth)
qed


lemma r_of_phi_even: "r_of_phi r_1 r2 (Some (- p)) = r_of_phi r_1 r2 (Some p)"
  by (simp add: r_of_phi_def quad_b_def)

lemma phi_mirror:
  assumes "alpha r_1 r2 = Some al" "k < 2000"
  shows "phi r_1 r2 ! (1999 - k) = Some (- ((pi - al) * ((2 * real k - 1999) / 1999)))"
proof -
  have "1999 - k < 2000" by simp
  from phi_nth[OF assms(1) this]
  have "phi r_1 r2 ! (1999 - k) = Some ((pi - al) * ((2 * real (1999 - k) - 1999) / 1999))" .
  moreover have "real (1999 - k) = 1999 - real k" using assms(2) by (simp add: of_nat_diff)
  ultimately show ?thesis by (simp add: field_simps)
qed

lemma r_all_mirror:
  assumes "k < 2000"
  shows "r_all r_1 r2 ! (1999 - k) = r_all r_1 r2 ! k"
proof (cases "alpha r_1 r2")
  case None
  then show ?thesis using assms by (simp add: r_all_nth phi_def)
next
  case (Some al)
  have k': "1999 - k < 2000" by simp
  have "r_all r_1 r2 ! (1999 - k) = r_of_phi r_1 r2 (Some (- ((pi - al) * ((2 * real k - 1999) / 1999))))"
    by (simp only: r_all_nth[OF k'] phi_mirror[OF Some assms])
  also have "\<dots> = r_of_phi r_1 r2 (Some ((pi - al) * ((2 * real k - 1999) / 1999)))"
    by (rule r_of_phi_even)
  also have "\<dots> = r_all r_1 r2 ! k"
    by (simp only: r_all_nth[OF assms] phi_nth[OF Some assms])
  finally show ?thesis .
qed

lemma i_r_mirror:
  assumes "k \<in> set (i_r r_1 r2)"
  shows "1999 - k \<in> set (i_r r_1 r2)"
  using assms by (simp add: i_r_iff r_all_mirror)




lemma middle_sample_kept:
  assumes r1: "0 < r_1" and al: "alpha r_1 r2 = Some al" and r2: "4 * to_cm r_1 / 1999 \<le> r2"
  shows "999 \<in> set (i_r r_1 r2)"
proof -
  define R where "R = to_cm r_1"
  define p where "p = (pi - al) * ((2 * real (999::nat) - 1999) / 1999)"
  have R: "0 < R" using r1 by (simp add: R_def to_cm_def)
  have ph: "phi r_1 r2 ! 999 = Some p" unfolding p_def by (rule phi_nth[OF al]) simp
  have "0 \<le> pi - al" "pi - al < 4"
    using alpha_SomeD(2,3)[OF al] pi_less_4 by simp_all
  then have pb: "\<bar>p\<bar> < 4 / 1999" by (simp add: p_def abs_if)
  have "R * \<bar>p\<bar> < R * (4 / 1999)" using pb R by (simp only: mult_strict_left_mono)
  also have "\<dots> \<le> r2" using r2 by (simp add: R_def)
  finally have lt: "R * \<bar>p\<bar> < r2" .
  have "0 \<le> R * \<bar>p\<bar>" using R by simp
  with lt have "(R * \<bar>p\<bar>)\<^sup>2 < r2\<^sup>2" by (intro power_strict_mono) simp_all
  then have sq: "R\<^sup>2 * p\<^sup>2 < r2\<^sup>2" by (simp add: power_mult_distrib)
  have "1 - cos p \<le> p\<^sup>2 / 2" using cos_ge_parabola[of p] by simp
  then have "2 * R\<^sup>2 * (1 - cos p) \<le> 2 * R\<^sup>2 * (p\<^sup>2 / 2)"
    by (intro mult_left_mono) simp_all
  with sq have "2 * R\<^sup>2 * (1 - cos p) < r2\<^sup>2" by simp
  then show ?thesis using i_r_member[OF r1 _ ph] by (simp add: R_def)
qed

lemma last_sample_nan:
  assumes r1: "0 < r_1" and al: "alpha r_1 r2 = Some al" and r2: "5 * r2\<^sup>2 < 4 * (to_cm r_1)\<^sup>2"
  shows "phi r_1 r2 ! 1999 = Some (pi - al)"
    and "(quad_b r_1 (pi - al))\<^sup>2 - 4 * quad_a * quad_c r_1 r2 < 0"
    and "r_all r_1 r2 ! 1999 = None"
proof -
  define R where "R = to_cm r_1"
  have R: "0 < R" using r1 by (simp add: R_def to_cm_def)
  show ph: "phi r_1 r2 ! 1999 = Some (pi - al)" using phi_nth[OF al, of 1999] by simp
  have "cos al = 0.5 * (r2 / R)" unfolding R_def by (rule alpha_SomeD(6)[OF al])
  then have "R * cos al = r2 / 2" using R by simp
  then have "R\<^sup>2 * (cos al)\<^sup>2 = r2\<^sup>2 / 4"
    by (metis power_mult_distrib power_divide num_double numeral_times_numeral power2_eq_square mult_2)
  moreover have "(sin (pi - al))\<^sup>2 = 1 - (cos al)\<^sup>2" by (simp add: sin_squared_eq)
  then have "R\<^sup>2 * (sin (pi - al))\<^sup>2 = R\<^sup>2 - R\<^sup>2 * (cos al)\<^sup>2"
    by (simp only: right_diff_distrib mult_1_right)
  ultimately have "R\<^sup>2 * (sin (pi - al))\<^sup>2 = R\<^sup>2 - r2\<^sup>2 / 4" by simp
  then have neg: "r2\<^sup>2 < R\<^sup>2 * (sin (pi - al))\<^sup>2" using r2 by (simp add: R_def)
  then show "(quad_b r_1 (pi - al))\<^sup>2 - 4 * quad_a * quad_c r_1 r2 < 0"
    by (simp add: discriminant_eq R_def)
  show "r_all r_1 r2 ! 1999 = None"
    using neg by (simp add: r_all_nth ph r_of_phi_None R_def)
qed

section \<open>The points handed to the coordinate object\<close>

lemma loop_point:
  assumes "i < length (i_r r_1 r2)"
  shows "\<exists>r p. r_kept r_1 r2 ! i = Some r \<and> phi_kept r_1 r2 ! i = Some p \<and> to_cm r_1 < r
    \<and> snd (loop_x r_1 r2) ! i = Some (r * sin p)
    \<and> snd (loop_y r_1 r2) ! i = Some 0
    \<and> snd (loop_z r_1 r2) ! i = Some (r * cos p)"
proof -
  let ?k = "i_r r_1 r2 ! i"
  have "?k \<in> set (i_r r_1 r2)" using assms by simp
  from kept_sample[OF this] obtain p r where
    pr: "phi r_1 r2 ! ?k = Some p" "r_all r_1 r2 ! ?k = Some r" "to_cm r_1 < r" by blast
  have x: "snd (loop_x r_1 r2) ! i = Some (r * sin p)"
    using assms pr by (simp add: loop_x_eq np_times_def np_sin_def)
  have z: "snd (loop_z r_1 r2) ! i = Some (r * cos p)"
    using assms pr by (simp add: loop_z_eq np_times_def np_cos_def)
  have "i_r r_1 r2 \<noteq> []" using assms by (cases "i_r r_1 r2") simp_all
  then have y: "snd (loop_y r_1 r2) ! i = Some 0"
    using assms by (simp add: loop_y_eq quantity_of_zeros_def)
  show ?thesis using pr x y z assms by (simp add: r_kept_nth phi_kept_nth)
qed

lemma alpha_defined:
  assumes "0 < r_1" "0 \<le> r2" "r2 \<le> 2 * to_cm r_1"
  shows "alpha r_1 r2 = Some (arccos (0.5 * (r2 / to_cm r_1)))"
  using half_ratio_bounds[OF assms] by (simp add: alpha_def np_arccos_def)

lemma norm_of_point:
  fixes r p :: real
  shows "sqrt ((r * sin p)\<^sup>2 + 0\<^sup>2 + (r * cos p)\<^sup>2) = \<bar>r\<bar>"
proof -
  have "(r * sin p)\<^sup>2 + 0\<^sup>2 + (r * cos p)\<^sup>2 = r\<^sup>2 * (sin p)\<^sup>2 + r\<^sup>2 * (cos p)\<^sup>2"
    by (simp add: power_mult_distrib)
  also have "\<dots> = r\<^sup>2 * ((sin p)\<^sup>2 + (cos p)\<^sup>2)" by (simp only: distrib_left)
  also have "\<dots> = r\<^sup>2" by simp
  finally show ?thesis by simp
qed

text \<open>
  Claim C5. Each retained sample \<open>(r, phi)\<close> becomes the Cartesian point
  \<open>(x, y, z) = (r sin(phi), 0, r cos(phi))\<close>, so the \<open>y\<close> component of every point is
  exactly zero; the points are given in the Heliocentric frame whose observer is at
  longitude 0, latitude \<open>theta0\<close> and radius \<open>r\<^sub>1\<close>, and what the function returns is what
  the construction of the coordinate object and its transformation to the Heliographic
  Stonyhurst frame (the collaborator \<open>sky_coord\<close>) make of them.
\<close>

theorem loop_points_cartesian:
  assumes "r_2 find_root r_1 len = Inr r2"
  shows "semi_circular_loop find_root sky_coord r_1 len theta0 =
           sky_coord \<lparr>lon = 0, lat = theta0, radius = r_1\<rparr> (loop_x r_1 r2) (loop_y r_1 r2) (loop_z r_1 r2)
       \<and> fst (loop_x r_1 r2) = Cm \<and> fst (loop_z r_1 r2) = Cm
       \<and> length (r_kept r_1 r2) = length (i_r r_1 r2)
       \<and> length (snd (loop_x r_1 r2)) = length (i_r r_1 r2)
       \<and> length (snd (loop_y r_1 r2)) = length (i_r r_1 r2)
       \<and> length (snd (loop_z r_1 r2)) = length (i_r r_1 r2)
       \<and> (\<forall>i < length (i_r r_1 r2). \<exists>r p.
             r_kept r_1 r2 ! i = Some r \<and> phi_kept r_1 r2 ! i = Some p
           \<and> snd (loop_x r_1 r2) ! i = Some (r * sin p)
           \<and> snd (loop_y r_1 r2) ! i = Some 0
           \<and> snd (loop_z r_1 r2) ! i = Some (r * cos p))"
proof -
  have "\<exists>r p. r_kept r_1 r2 ! i = Some r \<and> phi_kept r_1 r2 ! i = Some p
      \<and> snd (loop_x r_1 r2) ! i = Some (r * sin p)
      \<and> snd (loop_y r_1 r2) ! i = Some 0
      \<and> snd (loop_z r_1 r2) ! i = Some (r * cos p)"
    if "i < length (i_r r_1 r2)" for i
    using loop_point[OF that] by blast
  moreover have "fst (loop_x r_1 r2) = Cm" "fst (loop_z r_1 r2) = Cm"
    by (simp_all add: loop_x_def loop_z_def)
  ultimately show ?thesis
    using semi_circular_loop_eq[OF assms, of sky_coord theta0]
    by (simp add: length_r_kept length_loop_x length_loop_y length_loop_z)
qed

text \<open>
  Claim C4. The function computes the half-angle \<open>alpha = arccos (0.5 r\<^sub>2 / r\<^sub>1)\<close> and
  samples exactly 2000 angles, linearly spaced over the closed interval
  \<open>[- pi + alpha, pi - alpha]\<close>; so the point sequence it hands on has at most 2000 points.
\<close>

theorem phi_sampling:
  assumes "r_2 find_root r_1 len = Inr r2" and "alpha r_1 r2 = Some al"
  shows "al = arccos (0.5 * (r2 / to_cm r_1))
       \<and> length (phi r_1 r2) = 2000
       \<and> phi r_1 r2 ! 0 = Some (- pi + al) \<and> phi r_1 r2 ! 1999 = Some (pi - al)
       \<and> (\<forall>k<2000. phi r_1 r2 ! k = Some (- pi + al + real k * (((pi - al) - (- pi + al)) / 1999)))
       \<and> (\<forall>k<2000. \<exists>p. phi r_1 r2 ! k = Some p \<and> - pi + al \<le> p \<and> p \<le> pi - al)
       \<and> semi_circular_loop find_root sky_coord r_1 len theta0 =
           sky_coord \<lparr>lon = 0, lat = theta0, radius = r_1\<rparr> (loop_x r_1 r2) (loop_y r_1 r2) (loop_z r_1 r2)
       \<and> length (snd (loop_x r_1 r2)) \<le> 2000
       \<and> length (snd (loop_y r_1 r2)) \<le> 2000
       \<and> length (snd (loop_z r_1 r2)) \<le> 2000"
proof -
  have grid: "phi r_1 r2 ! k = Some (- pi + al + real k * (((pi - al) - (- pi + al)) / 1999))"
    if "k < 2000" for k
  proof -
    have "(pi - al) * ((2 * real k - 1999) / 1999) = - pi + al + real k * (((pi - al) - (- pi + al)) / 1999)"
      by (simp add: field_simps)
    then show ?thesis using phi_nth[OF assms(2) that] by simp
  qed
  have rng: "\<exists>p. phi r_1 r2 ! k = Some p \<and> - pi + al \<le> p \<and> p \<le> pi - al" if "k < 2000" for k
    using phi_nth_bounds[OF assms(2) that] by blast
  have "phi r_1 r2 ! 0 = Some (- pi + al)" using phi_nth[OF assms(2), of 0] by simp
  moreover have "phi r_1 r2 ! 1999 = Some (pi - al)" using phi_nth[OF assms(2), of 1999] by simp
  ultimately show ?thesis
    using grid rng alpha_SomeD(1)[OF assms(2)] semi_circular_loop_eq[OF assms(1), of sky_coord theta0]
      length_i_r_le[of r_1 r2]
    by (simp add: length_phi length_loop_x length_loop_y length_loop_z)
qed

text \<open>
  Claim C10. The discriminant \<open>b\<^sup>2 - 4 a c\<close> can be negative for a sampled angle, which
  makes the square root, and with it \<open>r\<close>, \<^verbatim>\<open>nan\<close>. Every such sample is left out by the
  strict comparison \<^verbatim>\<open>r > r_1\<close>: each radius that is kept is a number strictly greater than
  \<open>r\<^sub>1\<close>, it comes from a sample whose discriminant is not negative, and it is the distance
  of the point from the centre. The last conjunct shows a negative discriminant among the
  samples whenever \<open>5 r\<^sub>2\<^sup>2 < 4 r\<^sub>1\<^sup>2\<close> (the sample at \<open>pi - alpha\<close>).
\<close>

theorem nan_samples_filtered:
  "(\<forall>k<2000. \<forall>p. phi r_1 r2 ! k = Some p \<and> (quad_b r_1 p)\<^sup>2 - 4 * quad_a * quad_c r_1 r2 < 0
        \<longrightarrow> r_all r_1 r2 ! k = None \<and> k \<notin> set (i_r r_1 r2))
   \<and> (\<forall>i < length (r_kept r_1 r2). \<exists>r p x z.
          r_kept r_1 r2 ! i = Some r \<and> to_cm r_1 < r \<and> phi_kept r_1 r2 ! i = Some p
        \<and> 0 \<le> (quad_b r_1 p)\<^sup>2 - 4 * quad_a * quad_c r_1 r2
        \<and> snd (loop_x r_1 r2) ! i = Some x \<and> snd (loop_z r_1 r2) ! i = Some z
        \<and> sqrt (x\<^sup>2 + 0\<^sup>2 + z\<^sup>2) = \<bar>r\<bar>)
   \<and> (0 < r_1 \<and> - 1 \<le> 0.5 * (r2 / to_cm r_1) \<and> 0.5 * (r2 / to_cm r_1) \<le> 1
        \<and> 5 * r2\<^sup>2 < 4 * (to_cm r_1)\<^sup>2
        \<longrightarrow> (\<exists>k<2000. \<exists>p. phi r_1 r2 ! k = Some p
              \<and> (quad_b r_1 p)\<^sup>2 - 4 * quad_a * quad_c r_1 r2 < 0))"
proof (intro conjI allI impI)
  fix k p
  assume k: "k < 2000"
    and "phi r_1 r2 ! k = Some p \<and> (quad_b r_1 p)\<^sup>2 - 4 * quad_a * quad_c r_1 r2 < 0"
  then have ph: "phi r_1 r2 ! k = Some p" and d: "(quad_b r_1 p)\<^sup>2 - 4 * quad_a * quad_c r_1 r2 < 0"
    by simp_all
  have "np_sqrt ((quad_b r_1 p)\<^sup>2 - 4 * quad_a * quad_c r_1 r2) = None"
    using d by (simp only: np_sqrt_def not_le[symmetric] if_False)
  then show none: "r_all r_1 r2 ! k = None"
    by (simp add: r_all_nth[OF k] ph r_of_phi_def Let_def)
  show "k \<notin> set (i_r r_1 r2)" using none by (simp add: i_r_iff np_gt_def)
next
  fix i
  assume "i < length (r_kept r_1 r2)"
  then have i: "i < length (i_r r_1 r2)" by (simp add: length_r_kept)
  from loop_point[OF i] obtain r p where
    pr: "r_kept r_1 r2 ! i = Some r" "phi_kept r_1 r2 ! i = Some p" "to_cm r_1 < r"
      "snd (loop_x r_1 r2) ! i = Some (r * sin p)" "snd (loop_z r_1 r2) ! i = Some (r * cos p)"
    by blast
  let ?k = "i_r r_1 r2 ! i"
  have k: "?k < 2000" using i nth_mem[OF i] by (simp add: i_r_iff)
  have "r_of_phi r_1 r2 (Some p) = Some r"
    using pr(1,2) i r_all_nth[OF k] by (simp add: r_kept_nth phi_kept_nth)
  then have d: "0 \<le> (quad_b r_1 p)\<^sup>2 - 4 * quad_a * quad_c r_1 r2"
    by (simp add: r_of_phi_def Let_def np_sqrt_def split: if_splits)
  from norm_of_point[of r p]
  show "\<exists>r p x z. r_kept r_1 r2 ! i = Some r \<and> to_cm r_1 < r \<and> phi_kept r_1 r2 ! i = Some p
        \<and> 0 \<le> (quad_b r_1 p)\<^sup>2 - 4 * quad_a * quad_c r_1 r2
        \<and> snd (loop_x r_1 r2) ! i = Some x \<and> snd (loop_z r_1 r2) ! i = Some z
        \<and> sqrt (x\<^sup>2 + 0\<^sup>2 + z\<^sup>2) = \<bar>r\<bar>"
    using pr d by simp
next
  assume h: "0 < r_1 \<and> - 1 \<le> 0.5 * (r2 / to_cm r_1) \<and> 0.5 * (r2 / to_cm r_1) \<le> 1
        \<and> 5 * r2\<^sup>2 < 4 * (to_cm r_1)\<^sup>2"
  then have al: "alpha r_1 r2 = Some (arccos (0.5 * (r2 / to_cm r_1)))"
    by (simp add: alpha_def np_arccos_def)
  from last_sample_nan(1,2)[OF _ al] h
  show "\<exists>k<2000. \<exists>p. phi r_1 r2 ! k = Some p
              \<and> (quad_b r_1 p)\<^sup>2 - 4 * quad_a * quad_c r_1 r2 < 0"
    by (intro exI[of _ 1999]) simp
qed

lemma loop_y_unit: "i_r r_1 r2 \<noteq> [] \<Longrightarrow> fst (loop_y r_1 r2) = Cm"
  by (simp add: loop_y_eq quantity_of_zeros_def)

lemma solar_range_facts:
  assumes len: "10 ^ 8 \<le> len" "len \<le> 2 * 10 ^ 9"
    and sun: "69 * 10 ^ 7 \<le> r_1" "r_1 \<le> 70 * 10 ^ 7"
  shows "0 < r_1" and "0 < len" and "len \<le> 2 * pi * r_1" and "len \<le> 10 ^ 10"
    and "4 * to_cm r_1 / 1999 \<le> bracket_lo len"
proof -
  show r1: "0 < r_1" using sun(1) by simp
  show l0: "0 < len" using len(1) by simp
  have "len \<le> 2 * 2 * r_1" using len(2) sun(1) by simp
  also have "\<dots> \<le> 2 * pi * r_1" using pi_ge_two r1 by simp
  finally show "len \<le> 2 * pi * r_1" .
  show "len \<le> 10 ^ 10" using len(2) by simp
  have "4 * to_cm r_1 / 1999 \<le> to_cm len / (2 * 4)" using len(1) sun(2) by (simp add: to_cm_def)
  also have "\<dots> \<le> to_cm len / (2 * pi)"
    using pi_less_4 l0 by (intro divide_left_mono) (simp_all add: to_cm_def)
  finally show "4 * to_cm r_1 / 1999 \<le> bracket_lo len" by (simp add: bracket_lo_def)
qed

text \<open>
  Claim C1. For a length between 100 Mm and 2000 Mm and a latitude offset between -80 and
  80 degrees the point sequence is not empty and every point lies at a distance from the
  centre of at least the surface radius \<open>r\<^sub>1\<close>. The solar radius is a constant of astropy;
  the theorem holds for every value of it between 690 Mm and 700 Mm (the values astropy
  has given it lie there). The root finder is a parameter: the hypothesis is that it
  returned a value in the bracket it was called with.
\<close>

theorem loop_above_surface:
  assumes len: "10 ^ 8 \<le> len" "len \<le> 2 * 10 ^ 9"
    and theta: "- 80 \<le> theta0" "theta0 \<le> 80"
    and sun: "69 * 10 ^ 7 \<le> r_1" "r_1 \<le> 70 * 10 ^ 7"
    and root: "r_2 find_root r_1 len = Inr r2" "bracket_lo len \<le> r2" "r2 \<le> bracket_hi len"
  shows "semi_circular_loop find_root sky_coord r_1 len theta0 =
           sky_coord \<lparr>lon = 0, lat = theta0, radius = r_1\<rparr> (loop_x r_1 r2) (loop_y r_1 r2) (loop_z r_1 r2)
       \<and> fst (loop_x r_1 r2) = Cm \<and> fst (loop_y r_1 r2) = Cm \<and> fst (loop_z r_1 r2) = Cm
       \<and> 0 < length (snd (loop_x r_1 r2))
       \<and> length (snd (loop_y r_1 r2)) = length (snd (loop_x r_1 r2))
       \<and> length (snd (loop_z r_1 r2)) = length (snd (loop_x r_1 r2))
       \<and> (\<forall>i < length (snd (loop_x r_1 r2)). \<exists>x y z.
             snd (loop_x r_1 r2) ! i = Some x \<and> snd (loop_y r_1 r2) ! i = Some y
           \<and> snd (loop_z r_1 r2) ! i = Some z \<and> to_cm r_1 \<le> sqrt (x\<^sup>2 + y\<^sup>2 + z\<^sup>2))"
proof -
  note f = solar_range_facts[OF len sun]
  have R: "0 < to_cm r_1" using f(1) by (simp add: to_cm_def)
  have lo: "0 < bracket_lo len" by (rule bracket_lo_pos[OF f(2)])
  have r2: "0 \<le> r2" "r2 \<le> 2 * to_cm r_1"
    using lo root(2,3) bracket_hi_le[OF f(1,3)] by simp_all
  have al: "alpha r_1 r2 = Some (arccos (0.5 * (r2 / to_cm r_1)))"
    by (rule alpha_defined[OF f(1) r2])
  have "4 * to_cm r_1 / 1999 \<le> r2" using f(5) root(2) by simp
  from middle_sample_kept[OF f(1) al this] have ne: "i_r r_1 r2 \<noteq> []" by auto
  have pts: "\<exists>x y z. snd (loop_x r_1 r2) ! i = Some x \<and> snd (loop_y r_1 r2) ! i = Some y
           \<and> snd (loop_z r_1 r2) ! i = Some z \<and> to_cm r_1 \<le> sqrt (x\<^sup>2 + y\<^sup>2 + z\<^sup>2)"
    if "i < length (i_r r_1 r2)" for i
  proof -
    from loop_point[OF that] obtain r p where
      pr: "to_cm r_1 < r" "snd (loop_x r_1 r2) ! i = Some (r * sin p)"
        "snd (loop_y r_1 r2) ! i = Some 0" "snd (loop_z r_1 r2) ! i = Some (r * cos p)"
      by blast
    have "sqrt ((r * sin p)\<^sup>2 + 0\<^sup>2 + (r * cos p)\<^sup>2) = \<bar>r\<bar>" by (rule norm_of_point)
    then have "to_cm r_1 \<le> sqrt ((r * sin p)\<^sup>2 + 0\<^sup>2 + (r * cos p)\<^sup>2)" using pr(1) by simp
    then show ?thesis using pr(2-4) by blast
  qed
  have "fst (loop_x r_1 r2) = Cm" "fst (loop_z r_1 r2) = Cm"
    by (simp_all add: loop_x_def loop_z_def)
  then show ?thesis
    using pts ne loop_y_unit[OF ne] semi_circular_loop_eq[OF root(1), of sky_coord theta0]
    by (simp add: length_loop_x length_loop_y length_loop_z)
qed

lemma example_call_root:
  "\<exists>r2 root. r_2 (bisect default_solver) 695700000 500000000 = Inr r2
    \<and> bracket_lo 500000000 \<le> r2 \<and> r2 \<le> bracket_hi 500000000
    \<and> bracket_lo 500000000 \<le> root \<and> root \<le> bracket_hi 500000000
    \<and> r_2_func 695700000 500000000 root = Some 0
    \<and> (r2 = root \<or> \<bar>r2 - root\<bar> < xtol default_solver + rtol default_solver * \<bar>r2\<bar>)"
proof (rule r_2_bisect_default)
  have "(500000000::real) \<le> 2 * 2 * 695700000" by simp
  also have "\<dots> \<le> 2 * pi * 695700000" using pi_ge_two by simp
  finally show "(500000000::real) \<le> 2 * pi * 695700000" .
qed simp_all

text \<open>
  Witness for claim C1.
\<close>

theorem loop_above_surface_witness:
  "\<exists>r2. r_2 (bisect default_solver) 695700000 500000000 = Inr r2
     \<and> semi_circular_loop (bisect default_solver) sky_coord_id 695700000 500000000 30 =
         Inr (loop_x 695700000 r2, loop_y 695700000 r2, loop_z 695700000 r2)
     \<and> 0 < length (snd (loop_x 695700000 r2))
     \<and> fst (loop_y 695700000 r2) = Cm"
proof -
  from example_call_root obtain r2 where
    r: "r_2 (bisect default_solver) 695700000 500000000 = Inr r2"
      "bracket_lo 500000000 \<le> r2" "r2 \<le> bracket_hi 500000000"
    by blast
  have "(10::real) ^ 8 \<le> 500000000" "(500000000::real) \<le> 2 * 10 ^ 9" "- 80 \<le> (30::real)" "(30::real) \<le> 80"
    "69 * 10 ^ 7 \<le> (695700000::real)" "(695700000::real) \<le> 70 * 10 ^ 7"
    by simp_all
  from loop_above_surface[OF this r, of sky_coord_id] r(1)
  show ?thesis by (intro exI[of _ r2]) (simp add: sky_coord_id_def)
qed

text \<open>
  Witness for claim C5.
\<close>

theorem loop_points_cartesian_witness:
  "\<exists>r2. r_2 (bisect default_solver) 695700000 500000000 = Inr r2
     \<and> semi_circular_loop (bisect default_solver) sky_coord_id 695700000 500000000 30 =
         Inr (loop_x 695700000 r2, loop_y 695700000 r2, loop_z 695700000 r2)
     \<and> fst (loop_x 695700000 r2) = Cm
     \<and> length (snd (loop_y 695700000 r2)) = length (i_r 695700000 r2)"
proof -
  from example_call_root obtain r2 where
    r: "r_2 (bisect default_solver) 695700000 500000000 = Inr r2" by blast
  from loop_points_cartesian[OF r, of sky_coord_id 30] r
  show ?thesis by (intro exI[of _ r2]) (simp add: sky_coord_id_def)
qed

text \<open>
  Witness for claim C4.
\<close>

theorem phi_sampling_witness:
  "\<exists>r2 al. r_2 (bisect default_solver) 695700000 500000000 = Inr r2
     \<and> alpha 695700000 r2 = Some al
     \<and> length (phi 695700000 r2) = 2000
     \<and> phi 695700000 r2 ! 0 = Some (- pi + al)
     \<and> phi 695700000 r2 ! 1999 = Some (pi - al)
     \<and> length (snd (loop_x 695700000 r2)) \<le> 2000"
proof -
  from example_call_root obtain r2 where
    r: "r_2 (bisect default_solver) 695700000 500000000 = Inr r2"
      "bracket_lo 500000000 \<le> r2" "r2 \<le> bracket_hi 500000000"
    by blast
  have "(500000000::real) \<le> 2 * 2 * 695700000" by simp
  also have "\<dots> \<le> 2 * pi * 695700000" using pi_ge_two by simp
  finally have le: "(500000000::real) \<le> 2 * pi * 695700000" .
  have "0 < bracket_lo 500000000" by (rule bracket_lo_pos) simp
  moreover have "bracket_hi 500000000 \<le> 2 * to_cm 695700000"
    by (rule bracket_hi_le[OF _ le]) simp
  ultimately have "0 \<le> r2" "r2 \<le> 2 * to_cm 695700000" using r(2,3) by simp_all
  from alpha_defined[OF _ this] obtain al where al: "alpha 695700000 r2 = Some al" by auto
  from phi_sampling[OF r(1) al, of sky_coord_id 30] r(1) al
  show ?thesis by (intro exI[of _ r2] exI[of _ al]) simp
qed

text \<open>
  Witness for claim C3.
\<close>

theorem r_solves_quadratic_witness:
  "\<exists>p r. phi 695700000 (10 ^ 10) ! 1000 = Some p
     \<and> r_all 695700000 (10 ^ 10) ! 1000 = Some r
     \<and> r\<^sup>2 - 2 * to_cm 695700000 * cos p * r + ((to_cm 695700000)\<^sup>2 - (10 ^ 10)\<^sup>2) = 0"
proof -
  have al: "alpha 695700000 (10 ^ 10) = Some (arccos (0.5 * (10 ^ 10 / to_cm 695700000)))"
    by (rule alpha_defined) (simp_all add: to_cm_def)
  have "999 \<in> set (i_r 695700000 (10 ^ 10))"
    by (rule middle_sample_kept[OF _ al]) (simp_all add: to_cm_def)
  from i_r_mirror[OF this] have "1000 \<in> set (i_r 695700000 (10 ^ 10))" by simp
  from kept_sample[OF this] obtain p r where
    pr: "phi 695700000 (10 ^ 10) ! 1000 = Some p" "r_all 695700000 (10 ^ 10) ! 1000 = Some r"
    by blast
  from r_solves_quadratic[OF _ pr(1)] pr(2)
  have "r\<^sup>2 - 2 * to_cm 695700000 * cos p * r + ((to_cm 695700000)\<^sup>2 - (10 ^ 10)\<^sup>2) = 0"
    by simp
  with pr show ?thesis by blast
qed

text \<open>
  Witness for claim C10.
\<close>

theorem nan_samples_filtered_witness:
  "\<exists>k p. k < 2000 \<and> phi 695700000 (10 ^ 10) ! k = Some p
     \<and> r_all 695700000 (10 ^ 10) ! k = None \<and> k \<notin> set (i_r 695700000 (10 ^ 10))"
proof -
  note t = nan_samples_filtered[of 695700000 "10 ^ 10"]
  have "0 < (695700000::real) \<and> - 1 \<le> 0.5 * (10 ^ 10 / to_cm 695700000)
      \<and> 0.5 * (10 ^ 10 / to_cm 695700000) \<le> 1 \<and> 5 * (10 ^ 10)\<^sup>2 < 4 * (to_cm 695700000)\<^sup>2"
    by (simp add: to_cm_def)
  with t obtain k p where kp: "k < 2000" "phi 695700000 (10 ^ 10) ! k = Some p"
      "(quad_b 695700000 p)\<^sup>2 - 4 * quad_a * quad_c 695700000 (10 ^ 10) < 0"
    by blast
  with t have "r_all 695700000 (10 ^ 10) ! k = None \<and> k \<notin> set (i_r 695700000 (10 ^ 10))"
    by blast
  with kp show ?thesis by blast
qed

section \<open>What the root finder returns is near a root\<close>

lemma bisect_loop_sound:
  fixes g :: "real \<Rightarrow> real"
  assumes dom: "\<And>x. lo \<le> x \<Longrightarrow> x \<le> hi \<Longrightarrow> f x = Some (g x)"
    and cont: "continuous_on {lo..hi} g"
  shows "lo \<le> xa \<Longrightarrow> xa \<le> hi \<Longrightarrow> lo \<le> xa + dm \<Longrightarrow> xa + dm \<le> hi
    \<Longrightarrow> 0 < g xa * fa \<Longrightarrow> g (xa + dm) * fa < 0
    \<Longrightarrow> bisect_loop s f xa fa dm n = Inr x
    \<Longrightarrow> lo \<le> x \<and> x \<le> hi
      \<and> (\<exists>root. lo \<le> root \<and> root \<le> hi \<and> g root = 0
            \<and> (x = root \<or> \<bar>x - root\<bar> < xtol s + rtol s * \<bar>x\<bar>))"
proof (induction n arbitrary: xa dm)
  case 0
  then show ?case by simp
next
  case (Suc n)
  define xm where "xm = xa + dm / 2"
  have xm: "lo \<le> xm" "xm \<le> hi" unfolding xm_def using midpoint_bounds[OF Suc.prems(1-4)] by simp_all
  have fxm: "f xm = Some (g xm)" using dom xm by simp
  show ?case
  proof (cases "g xm = 0 \<or> \<bar>dm / 2\<bar> < xtol s + rtol s * \<bar>xm\<bar>")
    case True
    then have "bisect_loop s f xa fa dm (Suc n) = Inr xm"
      using fxm unfolding xm_def by (simp add: Let_def)
    with Suc.prems(7) have x: "x = xm" by simp
    from bisect_return[OF cont Suc.prems(1-6), of "xtol s + rtol s * \<bar>xm\<bar>"] True
    obtain root where "lo \<le> root" "root \<le> hi" "g root = 0"
        "xm = root \<or> \<bar>xm - root\<bar> < xtol s + rtol s * \<bar>xm\<bar>"
      unfolding xm_def by blast
    then show ?thesis using xm unfolding x by blast
  next
    case False
    define xa' where "xa' = (if 0 \<le> g xm * fa then xm else xa)"
    have run: "bisect_loop s f xa fa dm (Suc n) = bisect_loop s f xa' fa (dm / 2) n"
      using fxm False unfolding xm_def xa'_def by (simp add: Let_def)
    have nz: "g xm \<noteq> 0" using False by simp
    have fa: "fa \<noteq> 0" using Suc.prems(5) by auto
    have b1: "lo \<le> xa'" "xa' \<le> hi" using xm Suc.prems(1,2) by (simp_all add: xa'_def)
    have b2: "lo \<le> xa' + dm / 2" "xa' + dm / 2 \<le> hi"
      using xm Suc.prems(3,4) by (simp_all add: xa'_def xm_def)
    have s1: "0 < g xa' * fa"
      using Suc.prems(5) nz fa by (simp add: xa'_def less_le)
    have "xm + dm / 2 = xa + dm" by (simp add: xm_def)
    then have s2: "g (xa' + dm / 2) * fa < 0"
      using Suc.prems(6) by (simp add: xa'_def not_le) (simp add: xm_def)
    have r: "bisect_loop s f xa' fa (dm / 2) n = Inr x" using Suc.prems(7) run by simp
    from Suc.IH[OF b1 b2 s1 s2 r] show ?thesis .
  qed
qed

lemma bisect_sound:
  fixes g :: "real \<Rightarrow> real"
  assumes ab: "a \<le> b"
    and dom: "\<And>x. a \<le> x \<Longrightarrow> x \<le> b \<Longrightarrow> f x = Some (g x)"
    and cont: "continuous_on {a..b} g"
    and res: "bisect s f a b = Inr x"
  shows "a \<le> x \<and> x \<le> b
    \<and> (\<exists>root. a \<le> root \<and> root \<le> b \<and> g root = 0
          \<and> (x = root \<or> \<bar>x - root\<bar> < xtol s + rtol s * \<bar>x\<bar>))"
proof -
  have fa: "f a = Some (g a)" and fb: "f b = Some (g b)" using dom ab by simp_all
  from res fa fb have nsign: "\<not> 0 < g a * g b"
    by (auto simp: bisect_def split: if_splits)
  show ?thesis
  proof (cases "g a = 0")
    case True
    then have "x = a" using res fa fb nsign by (simp add: bisect_def)
    then show ?thesis using True ab by blast
  next
    case ga: False
    show ?thesis
    proof (cases "g b = 0")
      case True
      then have "x = b" using res fa fb ga nsign by (simp add: bisect_def)
      then show ?thesis using True ab by blast
    next
      case gb: False
      have run: "bisect_loop s f a (g a) (b - a) (maxiter s) = Inr x"
        using res fa fb ga gb nsign by (simp add: bisect_def)
      have "0 < (g a)\<^sup>2" using ga by simp
      then have s1: "0 < g a * g a" by (simp add: power2_eq_square)
      have "g a * g b < 0" using nsign ga gb by (simp add: less_le not_less)
      then have s2: "g (a + (b - a)) * g a < 0" by (simp add: mult.commute)
      have b1: "a \<le> a" "a \<le> b" "a \<le> a + (b - a)" "a + (b - a) \<le> b" using ab by simp_all
      from bisect_loop_sound[OF dom cont b1 s1 s2 run] show ?thesis by blast
    qed
  qed
qed

lemma r_2_func_unique_root:
  assumes r1: "0 < r_1" and len: "0 < len"
    and x: "0 < x" "x \<le> 2 * to_cm r_1" "r_2_func r_1 len x = Some 0"
    and y: "0 < y" "y \<le> 2 * to_cm r_1" "r_2_func r_1 len y = Some 0"
  shows "x = y"
proof (rule ccontr)
  assume ne: "x \<noteq> y"
  have gx: "arccos (0.5 * x / to_cm r_1) - pi + to_cm len / 2 / x = 0"
    using r_2_func_defined[OF r1 x(1,2), of len] x(3) by simp
  have gy: "arccos (0.5 * y / to_cm r_1) - pi + to_cm len / 2 / y = 0"
    using r_2_func_defined[OF r1 y(1,2), of len] y(3) by simp
  from ne consider "x < y" | "y < x" by linarith
  then show False
  proof cases
    case 1
    from r_2_func_decreasing[OF r1 len x(1) 1 y(2)] gx gy show False by simp
  next
    case 2
    from r_2_func_decreasing[OF r1 len y(1) 2 x(2)] gx gy show False by simp
  qed
qed

lemma r_2_bisect_sound:
  assumes r1: "0 < r_1" and len: "0 < len"
    and res: "r_2 (bisect s) r_1 len = Inr r2"
  shows "bracket_lo len \<le> r2 \<and> r2 \<le> bracket_hi len
    \<and> (\<exists>root. bracket_lo len \<le> root \<and> root \<le> bracket_hi len
          \<and> r_2_func r_1 len root = Some 0
          \<and> (r2 = root \<or> \<bar>r2 - root\<bar> < xtol s + rtol s * \<bar>r2\<bar>))"
proof -
  define g where "g = (\<lambda>x. arccos (0.5 * x / to_cm r_1) - pi + to_cm len / 2 / x)"
  have R: "0 < to_cm r_1" using r1 by (simp add: to_cm_def)
  have lo: "0 < bracket_lo len" by (rule bracket_lo_pos[OF len])
  have ab: "bracket_lo len \<le> bracket_hi len" using lo by (simp add: bracket_hi_eq)
  from res have "r_2_func r_1 len (bracket_hi len) \<noteq> None"
    by (auto simp: r_2_def bisect_def split: option.splits)
  then have "0.5 * bracket_hi len / to_cm r_1 \<le> 1"
    by (auto simp: r_2_func_def np_arccos_def split: if_splits)
  then have hi: "bracket_hi len \<le> 2 * to_cm r_1" using R by (simp add: pos_divide_le_eq)
  have dom: "r_2_func r_1 len x = Some (g x)" if "bracket_lo len \<le> x" "x \<le> bracket_hi len" for x
    unfolding g_def using that lo hi by (intro r_2_func_defined[OF r1]) simp_all
  have cont: "continuous_on {bracket_lo len..bracket_hi len} g"
    unfolding g_def by (rule r_2_func_continuous[OF r1 lo hi])
  from res have "bisect s (r_2_func r_1 len) (bracket_lo len) (bracket_hi len) = Inr r2"
    by (simp add: r_2_def)
  from bisect_sound[OF ab dom cont this]
  obtain root where r: "bracket_lo len \<le> r2" "r2 \<le> bracket_hi len"
      "bracket_lo len \<le> root" "root \<le> bracket_hi len" "g root = 0"
      "r2 = root \<or> \<bar>r2 - root\<bar> < xtol s + rtol s * \<bar>r2\<bar>"
    by blast
  have "r_2_func r_1 len root = Some 0" using dom[OF r(3,4)] r(5) by simp
  then show ?thesis using r by blast
qed

lemma arccos_negative:
  assumes "- 1 \<le> x" "x < 0"
  shows "pi / 2 < arccos x"
  using arccos_less_arccos[of x 0] assms by simp

lemma r_2_negative_length:
  assumes r1: "0 < r_1" and len: "len < 0"
  shows "r_2 (bisect s) r_1 len = Inl SignError \<or> r_2 (bisect s) r_1 len = Inl NanError"
proof (cases "r_2_func r_1 len (bracket_lo len) = None \<or> r_2_func r_1 len (bracket_hi len) = None")
  case True
  then show ?thesis unfolding r_2_def using bisect_nan_error by blast
next
  case False
  define R where "R = to_cm r_1"
  have R: "0 < R" using r1 by (simp add: R_def to_cm_def)
  have lo: "bracket_lo len < 0" and hi: "bracket_hi len < 0"
    using len by (simp_all add: bracket_lo_def bracket_hi_def to_cm_def divide_neg_pos)
  from False have a: "- 1 \<le> 0.5 * bracket_lo len / R" and b: "- 1 \<le> 0.5 * bracket_hi len / R"
    by (auto simp: r_2_func_def np_arccos_def R_def split: if_splits)
  have a': "0.5 * bracket_lo len / R < 0" and b': "0.5 * bracket_hi len / R < 0"
    using lo hi R by (simp_all add: divide_neg_pos)
  have pa: "to_cm len / 2 / bracket_lo len = pi"
    using len by (simp add: bracket_lo_def to_cm_def)
  have pb: "to_cm len / 2 / bracket_hi len = pi / 2"
    using len by (simp add: bracket_hi_def to_cm_def)
  define fa where "fa = arccos (0.5 * bracket_lo len / R) - pi + to_cm len / 2 / bracket_lo len"
  define fb where "fb = arccos (0.5 * bracket_hi len / R) - pi + to_cm len / 2 / bracket_hi len"
  have fa: "r_2_func r_1 len (bracket_lo len) = Some fa"
    using a a' lo by (simp add: r_2_func_def np_arccos_def R_def fa_def)
  have fb: "r_2_func r_1 len (bracket_hi len) = Some fb"
    using b b' hi by (simp add: r_2_func_def np_arccos_def R_def fb_def)
  have "0 < fa" using arccos_negative[OF a a'] pi_gt_zero unfolding fa_def pa by linarith
  moreover have "0 < fb" using arccos_negative[OF b b'] unfolding fb_def pb by linarith
  ultimately have "0 < fa * fb" by simp
  from bisect_sign_error[OF fa fb this] show ?thesis by (simp add: r_2_def)
qed

lemma r_2_zero_length: "r_2 (bisect s) r_1 0 = Inl NanError"
proof -
  have "r_2_func r_1 0 (bracket_lo 0) = None"
    by (simp add: r_2_func_def bracket_lo_def to_cm_def split: option.splits)
  then show ?thesis unfolding r_2_def using bisect_nan_error by blast
qed

text \<open>
  Claim C2. The radius \<open>r\<^sub>2\<close> is found by bisection on
  \<open>f(x) = arccos (0.5 x / r\<^sub>1) - pi + length / (2 x)\<close> over the bracket
  \<open>[length / (2 pi), length / pi]\<close>; the value returned lies in the bracket and is a zero
  of \<open>f\<close> up to the tolerance of the root finder. The theorem is about the modelled root
  finder \<open>bisect\<close>: for a positive length of at most \<open>2 pi r\<^sub>1\<close> and a solver whose
  iteration bound lets the interval shrink below its tolerance, the call returns, its
  result is in the bracket, \<open>f\<close> is a number on the whole bracket and has exactly one
  zero there, and the result is that zero or closer to it than the tolerance.
\<close>

theorem r_2_found_by_bisection:
  assumes r1: "0 < r_1" and len: "0 < len" "len \<le> 2 * pi * r_1"
    and solver: "0 \<le> rtol s" "0 < maxiter s"
      "(bracket_hi len - bracket_lo len) / 2 ^ maxiter s < xtol s"
  shows "r_2 (bisect s) r_1 len =
           bisect s (r_2_func r_1 len) (to_cm len / (2 * pi)) (to_cm len / pi)
       \<and> (\<forall>x. to_cm len / (2 * pi) \<le> x \<and> x \<le> to_cm len / pi \<longrightarrow>
             r_2_func r_1 len x = Some (arccos (0.5 * x / to_cm r_1) - pi + to_cm len / (2 * x)))
       \<and> (\<exists>r2 root. r_2 (bisect s) r_1 len = Inr r2
             \<and> to_cm len / (2 * pi) \<le> r2 \<and> r2 \<le> to_cm len / pi
             \<and> to_cm len / (2 * pi) \<le> root \<and> root \<le> to_cm len / pi
             \<and> r_2_func r_1 len root = Some 0
             \<and> (\<forall>x. to_cm len / (2 * pi) \<le> x \<and> x \<le> to_cm len / pi
                    \<and> r_2_func r_1 len x = Some 0 \<longrightarrow> x = root)
             \<and> (r2 = root \<or> \<bar>r2 - root\<bar> < xtol s + rtol s * \<bar>r2\<bar>))"
proof -
  have lo: "bracket_lo len = to_cm len / (2 * pi)" by (simp add: bracket_lo_def)
  have hi: "bracket_hi len = to_cm len / pi" by (simp add: bracket_hi_def)
  have lopos: "0 < bracket_lo len" by (rule bracket_lo_pos[OF len(1)])
  have hile: "bracket_hi len \<le> 2 * to_cm r_1" by (rule bracket_hi_le[OF r1 len(2)])
  have dom: "r_2_func r_1 len x = Some (arccos (0.5 * x / to_cm r_1) - pi + to_cm len / (2 * x))"
    if "bracket_lo len \<le> x \<and> x \<le> bracket_hi len" for x
  proof -
    have "0 < x" "x \<le> 2 * to_cm r_1" using that lopos hile by simp_all
    from r_2_func_defined[OF r1 this, of len] show ?thesis by simp
  qed
  from r_2_bisect[OF r1 len solver] obtain r2 root where
    r: "r_2 (bisect s) r_1 len = Inr r2" "bracket_lo len \<le> r2" "r2 \<le> bracket_hi len"
      "bracket_lo len \<le> root" "root \<le> bracket_hi len" "r_2_func r_1 len root = Some 0"
      "r2 = root \<or> \<bar>r2 - root\<bar> < xtol s + rtol s * \<bar>r2\<bar>"
    by blast
  have uniq: "x = root"
    if "bracket_lo len \<le> x \<and> x \<le> bracket_hi len \<and> r_2_func r_1 len x = Some 0" for x
  proof (rule r_2_func_unique_root[OF r1 len(1)])
    show "0 < x" "x \<le> 2 * to_cm r_1" "r_2_func r_1 len x = Some 0"
      using that lopos hile by simp_all
    show "0 < root" "root \<le> 2 * to_cm r_1" "r_2_func r_1 len root = Some 0"
      using r(4,5,6) lopos hile by simp_all
  qed
  have call: "r_2 (bisect s) r_1 len =
      bisect s (r_2_func r_1 len) (to_cm len / (2 * pi)) (to_cm len / pi)"
    by (simp add: r_2_def lo hi)
  have ex: "\<exists>r2 root. r_2 (bisect s) r_1 len = Inr r2
             \<and> bracket_lo len \<le> r2 \<and> r2 \<le> bracket_hi len
             \<and> bracket_lo len \<le> root \<and> root \<le> bracket_hi len
             \<and> r_2_func r_1 len root = Some 0
             \<and> (\<forall>x. bracket_lo len \<le> x \<and> x \<le> bracket_hi len
                    \<and> r_2_func r_1 len x = Some 0 \<longrightarrow> x = root)
             \<and> (r2 = root \<or> \<bar>r2 - root\<bar> < xtol s + rtol s * \<bar>r2\<bar>)"
    using r uniq by blast
  show ?thesis using call dom ex unfolding lo hi by blast
qed

text \<open>
  Witness for claim C2.
\<close>

theorem r_2_found_by_bisection_witness:
  "\<exists>r2 root. r_2 (bisect default_solver) 695700000 500000000 = Inr r2
     \<and> to_cm 500000000 / (2 * pi) \<le> r2 \<and> r2 \<le> to_cm 500000000 / pi
     \<and> r_2_func 695700000 500000000 root = Some 0
     \<and> (r2 = root \<or> \<bar>r2 - root\<bar> < xtol default_solver + rtol default_solver * \<bar>r2\<bar>)"
proof -
  have "(500000000::real) \<le> 2 * 2 * 695700000" by simp
  also have "\<dots> \<le> 2 * pi * 695700000" using pi_ge_two by simp
  finally have le: "(500000000::real) \<le> 2 * pi * 695700000" .
  have s: "0 \<le> rtol default_solver" "0 < maxiter default_solver"
    by (simp_all add: default_solver_def)
  have fuel: "(bracket_hi 500000000 - bracket_lo 500000000) / 2 ^ maxiter default_solver
      < xtol default_solver"
    by (rule default_solver_fuel) simp_all
  have p: "0 < (695700000::real)" "0 < (500000000::real)" by simp_all
  from r_2_found_by_bisection[OF p le s fuel, THEN conjunct2, THEN conjunct2]
  obtain r2 root where "r_2 (bisect default_solver) 695700000 500000000 = Inr r2"
      "to_cm 500000000 / (2 * pi) \<le> r2" "r2 \<le> to_cm 500000000 / pi"
      "r_2_func 695700000 500000000 root = Some 0"
      "r2 = root \<or> \<bar>r2 - root\<bar> < xtol default_solver + rtol default_solver * \<bar>r2\<bar>"
    by blast
  then show ?thesis by blast
qed

text \<open>
  Claim C9. If the bracket \<open>[length / (2 pi), length / pi]\<close> holds no sign change of the
  root equation, \<^verbatim>\<open>semi_circular_loop\<close> fails with the root finder's error and returns
  no result; at the bracket's ends it returns a zero of the equation or fails; it never
  returns a geometry built on a wrong root. The theorem is about the modelled root finder
  \<open>bisect\<close>: equal signs at the two ends are its sign error, a value that is not a number
  at an end is its error too, every error of the root finder is the function's result, a
  zero at an end of the bracket is returned, a length that is not positive always fails,
  and whatever the root finder returns lies in the bracket, within the tolerance of a
  zero of the equation.
\<close>

theorem root_finder_failure_propagates:
  "(\<forall>fa fb. r_2_func r_1 len (bracket_lo len) = Some fa
        \<and> r_2_func r_1 len (bracket_hi len) = Some fb \<and> 0 < fa * fb
      \<longrightarrow> semi_circular_loop (bisect s) sky_coord r_1 len theta0 = Inl SignError)
   \<and> (r_2_func r_1 len (bracket_lo len) = None \<or> r_2_func r_1 len (bracket_hi len) = None
      \<longrightarrow> semi_circular_loop (bisect s) sky_coord r_1 len theta0 = Inl NanError)
   \<and> (\<forall>e. r_2 (bisect s) r_1 len = Inl e
      \<longrightarrow> semi_circular_loop (bisect s) sky_coord r_1 len theta0 = Inl e)
   \<and> (\<forall>fb. r_2_func r_1 len (bracket_lo len) = Some 0
        \<and> r_2_func r_1 len (bracket_hi len) = Some fb
      \<longrightarrow> r_2 (bisect s) r_1 len = Inr (bracket_lo len))
   \<and> (\<forall>fa. r_2_func r_1 len (bracket_lo len) = Some fa \<and> fa \<noteq> 0
        \<and> r_2_func r_1 len (bracket_hi len) = Some 0
      \<longrightarrow> r_2 (bisect s) r_1 len = Inr (bracket_hi len))
   \<and> (0 < r_1 \<and> len \<le> 0 \<longrightarrow> (\<exists>e. r_2 (bisect s) r_1 len = Inl e))
   \<and> (\<forall>r2. 0 < r_1 \<and> r_2 (bisect s) r_1 len = Inr r2
      \<longrightarrow> 0 < len \<and> bracket_lo len \<le> r2 \<and> r2 \<le> bracket_hi len
        \<and> (\<exists>root. bracket_lo len \<le> root \<and> root \<le> bracket_hi len
              \<and> r_2_func r_1 len root = Some 0
              \<and> (r2 = root \<or> \<bar>r2 - root\<bar> < xtol s + rtol s * \<bar>r2\<bar>)))"
proof -
  have c1: "semi_circular_loop (bisect s) sky_coord r_1 len theta0 = Inl SignError"
    if "r_2_func r_1 len (bracket_lo len) = Some fa \<and> r_2_func r_1 len (bracket_hi len) = Some fb
        \<and> 0 < fa * fb" for fa fb
  proof -
    from that have "r_2 (bisect s) r_1 len = Inl SignError"
      unfolding r_2_def by (intro bisect_sign_error[of _ _ fa _ fb]) simp_all
    then show ?thesis by (rule semi_circular_loop_error)
  qed
  have c2: "semi_circular_loop (bisect s) sky_coord r_1 len theta0 = Inl NanError"
    if "r_2_func r_1 len (bracket_lo len) = None \<or> r_2_func r_1 len (bracket_hi len) = None"
  proof -
    from that have "r_2 (bisect s) r_1 len = Inl NanError"
      unfolding r_2_def by (rule bisect_nan_error)
    then show ?thesis by (rule semi_circular_loop_error)
  qed
  have c3: "semi_circular_loop (bisect s) sky_coord r_1 len theta0 = Inl e"
    if "r_2 (bisect s) r_1 len = Inl e" for e
    using that by (rule semi_circular_loop_error)
  have c4: "r_2 (bisect s) r_1 len = Inr (bracket_lo len)"
    if "r_2_func r_1 len (bracket_lo len) = Some 0 \<and> r_2_func r_1 len (bracket_hi len) = Some fb" for fb
    using that by (simp add: r_2_def bisect_def)
  have c5: "r_2 (bisect s) r_1 len = Inr (bracket_hi len)"
    if "r_2_func r_1 len (bracket_lo len) = Some fa \<and> fa \<noteq> 0
        \<and> r_2_func r_1 len (bracket_hi len) = Some 0" for fa
    using that by (simp add: r_2_def bisect_def)
  have neg: "\<exists>e. r_2 (bisect s) r_1 len = Inl e" if "0 < r_1 \<and> len \<le> 0"
  proof (cases "len = 0")
    case True
    then show ?thesis using r_2_zero_length by blast
  next
    case False
    with that have "0 < r_1" "len < 0" by simp_all
    from r_2_negative_length[OF this, of s] show ?thesis by blast
  qed
  have c7: "0 < len \<and> bracket_lo len \<le> r2 \<and> r2 \<le> bracket_hi len
        \<and> (\<exists>root. bracket_lo len \<le> root \<and> root \<le> bracket_hi len
              \<and> r_2_func r_1 len root = Some 0
              \<and> (r2 = root \<or> \<bar>r2 - root\<bar> < xtol s + rtol s * \<bar>r2\<bar>))"
    if "0 < r_1 \<and> r_2 (bisect s) r_1 len = Inr r2" for r2
  proof -
    from that have r1: "0 < r_1" and res: "r_2 (bisect s) r_1 len = Inr r2" by simp_all
    have len: "0 < len"
    proof (rule ccontr)
      assume "\<not> 0 < len"
      with r1 neg obtain e where "r_2 (bisect s) r_1 len = Inl e" by auto
      with res show False by simp
    qed
    from r_2_bisect_sound[OF r1 len res] len show ?thesis by blast
  qed
  show ?thesis
    apply (intro conjI)
    using c1 apply blast
    using c2 apply blast
    using c3 apply blast
    using c4 apply blast
    using c5 apply blast
    using neg apply blast
    using c7 apply blast
    done
qed

lemma too_long_is_nan: "r_2_func 695700000 (10 ^ 10) (bracket_hi (10 ^ 10)) = None"
proof -
  have "pi * 139140000000 < 4 * 139140000000" using pi_less_4 by simp
  then have "pi * 139140000000 < 10 ^ 12" by simp
  then have "1 < 10 ^ 12 / (pi * 139140000000)" by (simp add: pos_less_divide_eq)
  moreover have "0.5 * bracket_hi (10 ^ 10) / to_cm 695700000 = 10 ^ 12 / (pi * 139140000000)"
    by (simp add: bracket_hi_def to_cm_def)
  ultimately have "\<not> 0.5 * bracket_hi (10 ^ 10) / to_cm 695700000 \<le> 1" by simp
  then have "np_arccos (0.5 * bracket_hi (10 ^ 10) / to_cm 695700000) = None"
    by (simp only: np_arccos_def simp_thms if_False)
  then show ?thesis by (simp only: r_2_func_def option.case)
qed

text \<open>
  Witness for claim C9.
\<close>

theorem root_finder_failure_propagates_witness:
  "semi_circular_loop (bisect default_solver) sky_coord_id 695700000 (10 ^ 10) 30 = Inl NanError
   \<and> (\<exists>e. r_2 (bisect default_solver) 695700000 (- 500000000) = Inl e)"
proof -
  note t1 = root_finder_failure_propagates[of 695700000 "10 ^ 10" default_solver sky_coord_id 30]
  note t2 = root_finder_failure_propagates[of 695700000 "- 500000000" default_solver sky_coord_id 30]
  have a: "semi_circular_loop (bisect default_solver) sky_coord_id 695700000 (10 ^ 10) 30 = Inl NanError"
    using t1[THEN conjunct2, THEN conjunct1] too_long_is_nan by blast
  have "0 < (695700000::real) \<and> (- 500000000::real) \<le> 0" by simp
  then have "\<exists>e. r_2 (bisect default_solver) 695700000 (- 500000000) = Inl e"
    using t2[THEN conjunct2, THEN conjunct2, THEN conjunct2, THEN conjunct2, THEN conjunct2, THEN conjunct1]
    by (rule rev_mp)
  with a show ?thesis by (rule conjI)
qed

section \<open>The first and the last point\<close>












section \<open>A length too short for the sampling\<close>

lemma sin_lower:
  fixes x :: real
  assumes "0 \<le> x"
  shows "x - x ^ 3 / 6 \<le> sin x"
proof -
  have "(\<Sum>m<3. sin_coeff m * x ^ m) = x"
    by (simp add: sin_coeff_def numeral_3_eq_3)
  moreover have "inverse (fact 3) * \<bar>x\<bar> ^ 3 = x ^ 3 / 6"
    using assms by (simp add: fact_numeral)
  ultimately have "\<bar>sin x - x\<bar> \<le> x ^ 3 / 6"
    using Maclaurin_sin_bound[of x 3] by simp
  then have "- (x ^ 3 / 6) \<le> sin x - x" by (simp only: abs_le_iff) linarith
  then show ?thesis by linarith
qed

lemma one_minus_cos_lower:
  fixes p :: real
  assumes "1 / 1999 \<le> \<bar>p\<bar>" "\<bar>p\<bar> \<le> pi"
  shows "2 / 4000\<^sup>2 \<le> 1 - cos p"
proof -
  define y where "y = \<bar>p\<bar> / 2"
  have y: "1 / 3998 \<le> y" "y \<le> pi / 2" using assms by (simp_all add: y_def)
  have "(1 / 4000 :: real) \<le> 1 / 3998 - (1 / 3998) ^ 3 / 6" by (simp add: power3_eq_cube)
  also have "\<dots> \<le> sin (1 / 3998)" by (rule sin_lower) simp
  also have "\<dots> \<le> sin y"
    using y pi_gt_zero by (intro sin_monotone_2pi_le) simp_all
  finally have s: "1 / 4000 \<le> sin y" .
  then have "(1 / 4000)\<^sup>2 \<le> (sin y)\<^sup>2" by (intro power_mono) simp_all
  moreover have "cos p = 1 - 2 * (sin y)\<^sup>2"
    using cos_double_sin[of y] by (simp add: y_def)
  ultimately show ?thesis by (simp add: power_divide)
qed

lemma degenerate_empty:
  assumes r1: "0 < r_1" and r2: "0 \<le> r2" and small: "2000 * r2 \<le> to_cm r_1"
  shows "i_r r_1 r2 = []"
proof -
  define R where "R = to_cm r_1"
  have R: "0 < R" using r1 by (simp add: R_def to_cm_def)
  have "k \<notin> set (i_r r_1 r2)" for k
  proof
    assume m: "k \<in> set (i_r r_1 r2)"
    then have k: "k < 2000" by (simp add: i_r_iff)
    have "r2 \<le> 2 * R" using small R r2 unfolding R_def by linarith
    from alpha_defined[OF r1 r2 this[unfolded R_def]] obtain al where al: "alpha r_1 r2 = Some al"
      by blast
    have "0 \<le> 0.5 * (r2 / R)" using r2 R by simp
    then have "al \<le> pi / 2" unfolding alpha_SomeD(1)[OF al] R_def[symmetric]
      using alpha_SomeD(5)[OF al] by (intro arccos_le_pi2) (simp_all add: R_def)
    then have w: "1 \<le> pi - al" using pi_ge_two by linarith
    define c where "c = (2 * real k - 1999) / 1999"
    define p where "p = (pi - al) * c"
    have ph: "phi r_1 r2 ! k = Some p" unfolding p_def c_def by (rule phi_nth[OF al k])
    have "k \<le> 999 \<or> 1000 \<le> k" by linarith
    then have "1 \<le> \<bar>2 * real k - 1999\<bar>" by (auto simp: abs_if)
    then have c: "1 / 1999 \<le> \<bar>c\<bar>" by (simp add: c_def divide_right_mono)
    have "1 * (1 / 1999) \<le> \<bar>pi - al\<bar> * \<bar>c\<bar>"
      using w c by (intro mult_mono) simp_all
    then have lowp: "1 / 1999 \<le> \<bar>p\<bar>" by (simp add: p_def abs_mult)
    from phi_nth_bounds[OF al k] ph have "\<bar>p\<bar> \<le> pi - al" by auto
    then have upp: "\<bar>p\<bar> \<le> pi" using alpha_SomeD(2)[OF al] by simp
    from one_minus_cos_lower[OF lowp upp] have "2 / 4000\<^sup>2 \<le> 1 - cos p" .
    then have "2 * R\<^sup>2 * (2 / 4000\<^sup>2) \<le> 2 * R\<^sup>2 * (1 - cos p)"
      by (intro mult_left_mono) simp_all
    moreover have "2 * R\<^sup>2 * (2 / 4000\<^sup>2) = (R / 2000)\<^sup>2"
      by (simp add: power2_eq_square)
    moreover have "r2\<^sup>2 \<le> (R / 2000)\<^sup>2"
      using r2 small by (intro power_mono) (simp_all add: R_def)
    ultimately have "r2\<^sup>2 \<le> 2 * R\<^sup>2 * (1 - cos p)" by linarith
    moreover have "2 * R\<^sup>2 * (1 - cos p) < r2\<^sup>2"
      using i_r_member[OF r1 k ph] m by (simp add: R_def)
    ultimately show False by simp
  qed
  then show ?thesis by (cases "i_r r_1 r2") auto
qed

lemma empty_loop_arrays:
  assumes "i_r r_1 r2 = []"
  shows "loop_x r_1 r2 = (Cm, [])" "loop_y r_1 r2 = (Dimensionless, [])" "loop_z r_1 r2 = (Cm, [])"
  using assms by (simp_all add: loop_x_eq loop_y_eq loop_z_eq quantity_of_zeros_def)

text \<open>
  Claim C8 says that when every sample falls below the surface the function returns an
  empty sequence and raises nothing. The theorem evaluates the call
  \<^verbatim>\<open>semi_circular_loop(0.5*u.Mm, 0*u.deg)\<close>: the root finder returns, no sample is
  selected, and the arrays handed to \<^verbatim>\<open>SkyCoord\<close> are an empty \<open>x\<close> and an empty \<open>z\<close> in
  centimetres and an empty \<open>y\<close> that carries no unit, since \<^verbatim>\<open>u.Quantity(0 * [0 * u.cm])\<close>
  is \<^verbatim>\<open>u.Quantity([])\<close>. A collaborator that asks for three lengths refuses them.
\<close>

theorem degenerate_length_units:
  "\<exists>r2. r_2 (bisect default_solver) 695700000 500000 = Inr r2
     \<and> i_r 695700000 r2 = []
     \<and> semi_circular_loop (bisect default_solver) sky_coord_id 695700000 500000 0 =
         Inr ((Cm, []), (Dimensionless, []), (Cm, []))
     \<and> semi_circular_loop (bisect default_solver) sky_coord_hgs 695700000 500000 0 = Inl UnitsError"
proof -
  have "(500000::real) \<le> 2 * 2 * 695700000" by simp
  also have "\<dots> \<le> 2 * pi * 695700000" using pi_ge_two by simp
  finally have le: "(500000::real) \<le> 2 * pi * 695700000" .
  have p: "0 < (695700000::real)" "0 < (500000::real)" "(500000::real) \<le> 10 ^ 10" by simp_all
  from r_2_bisect_default[OF p(1,2) le p(3)] obtain r2 where
    r: "r_2 (bisect default_solver) 695700000 500000 = Inr r2"
      "bracket_lo 500000 \<le> r2" "r2 \<le> bracket_hi 500000"
    by blast
  have r2: "0 \<le> r2" using bracket_lo_pos[OF p(2)] r(2) by simp
  have "bracket_hi 500000 \<le> to_cm 500000 / 2"
    unfolding bracket_hi_def using pi_ge_two by (intro divide_left_mono) (simp_all add: to_cm_def)
  then have "r2 \<le> 25000000" using r(3) by (simp add: to_cm_def)
  then have small: "2000 * r2 \<le> to_cm 695700000" by (simp add: to_cm_def)
  have e: "i_r 695700000 r2 = []" by (rule degenerate_empty[OF p(1) r2 small])
  note a = empty_loop_arrays[OF e]
  have i: "semi_circular_loop (bisect default_solver) sky_coord_id 695700000 500000 0 =
      Inr ((Cm, []), (Dimensionless, []), (Cm, []))"
    unfolding semi_circular_loop_eq[OF r(1)] a by (simp add: sky_coord_id_def)
  have h: "semi_circular_loop (bisect default_solver) sky_coord_hgs 695700000 500000 0 = Inl UnitsError"
    unfolding semi_circular_loop_eq[OF r(1)] a by (simp add: sky_coord_hgs_def)
  show ?thesis using r(1) e i h by blast
qed

section \<open>The latitudes of the end points\<close>








end
